theory Spec2Isabelle
  imports Main
begin

section \<open>The render-asset handler of src/framework/handlers/render.js\<close>

text \<open>
  The handler binds a render asset to the meshes owned by a container asset. It consists
  of \<open>RenderHandler.patch\<close> and of three callbacks, \<open>onContainerAssetAdded\<close>,
  \<open>onContainerAssetLoaded\<close> and \<open>onContainerAssetRemoved\<close>, which run with the render
  asset as \<open>this\<close> and receive the container asset as their argument.

  JavaScript objects are shared by reference. The model keeps the references that the
  handler depends on:
  \<^item> a mesh list is an object; a \<open>meshes\<close> field holds its address (\<open>ref\<close>), and the
    contents live in the store \<open>mesh_lists\<close>. Two fields alias the same list exactly when
    they hold the same address; a copy would be another address with equal contents;
  \<^item> a render asset is an object with an identity (\<open>rid\<close>): subscriptions name it as
    their scope, and the callbacks mutate it through that identity.
  The container asset is only read by the handler; it is passed by value. The resource of
  a render asset is the \<open>Render\<close> that \<open>open\<close> created for it, which no other render
  asset holds; it is kept inside the render asset. The registry that \<open>patch\<close> receives
  and \<open>renderAsset.registry\<close> are the one registry of the application.
\<close>

subsection \<open>Data\<close>

type_synonym asset_id = int
type_synonym ref = nat
type_synonym rid = nat
type_synonym mesh = nat

text \<open>
  Modelled from the spec: the class \<open>Render\<close> of scene/render.js, which is imported by the
  handler and is not part of the sources at hand. A render resource exposes a mutable mesh
  list, unset (\<open>None\<close>) when the resource is opened, and a teardown operation that
  releases the meshes it holds.
\<close>

record Render =
  meshes :: "ref option"

definition destroy :: "Render \<Rightarrow> Render" where
  "destroy r = r\<lparr>meshes := None\<rparr>"

text \<open>\<open>open(url, data)\<close> returns \<open>new Render()\<close>.\<close>

definition open_render :: Render where
  "open_render = \<lparr>meshes = None\<rparr>"

text \<open>
  An entry of \<open>containerResource.renders\<close> (read as \<open>render.resource.meshes\<close>), the
  container resource with its optional \<open>renders\<close> array, whose slots may be empty, and
  the container asset. \<open>None\<close> stands for a value that JavaScript reads as
  \<open>undefined\<close> or \<open>null\<close>.
\<close>

record render_entry =
  e_resource :: "Render option"

record container_resource =
  renders :: "render_entry option list option"

record container_asset =
  c_id :: asset_id
  c_resource :: "container_resource option"

text \<open>
  The render asset: \<open>asset.data.containerAsset\<close>, \<open>asset.data.renderIndex\<close> and
  \<open>asset.resource\<close>.
\<close>

record render_asset =
  data_containerAsset :: "asset_id option"
  data_renderIndex :: nat
  resource :: "Render option"

datatype error = TypeError

subsection \<open>The asset registry and its event bus\<close>

text \<open>
  Event names are \<open>'add:' + id\<close>, \<open>'load:' + id\<close> and \<open>'remove:' + id\<close>.
\<close>

datatype event = AddEv asset_id | LoadEv asset_id | RemoveEv asset_id

datatype callback = OnContainerAssetLoaded | OnContainerAssetAdded | OnContainerAssetRemoved

record subscription =
  s_name :: event
  s_callback :: callback
  s_scope :: rid
  s_once :: bool

text \<open>
  What the handler does to its collaborators, in the order it does it: a call of
  \<open>registry.load\<close>, an assignment to \<open>renderAsset.resource.meshes\<close> and a call of
  \<open>renderAsset.resource.destroy()\<close>, each with the render asset that acted.
\<close>

datatype effect = LoadRequest rid asset_id | SetMeshes rid "ref option" | Destroy rid

record world =
  store :: "asset_id \<Rightarrow> container_asset option"
  subs :: "subscription list"
  rassets :: "rid \<Rightarrow> render_asset"
  mesh_lists :: "ref \<Rightarrow> mesh list"
  log :: "effect list"

text \<open>
  A call returns the world it leaves behind, or throws: \<open>Inl (e, w)\<close> is the exception
  \<open>e\<close> together with the world at the moment of the throw (JavaScript undoes nothing).
\<close>

type_synonym result = "(error \<times> world) + world"

fun world_of :: "result \<Rightarrow> world" where
  "world_of (Inl (e, w)) = w"
| "world_of (Inr w) = w"

text \<open>
  Modelled from the spec: the asset registry (\<open>get\<close>, \<open>load\<close>) and the event bus it
  inherits (\<open>on\<close>, \<open>once\<close>, \<open>off\<close> and the emission of an event), which are not part of
  the sources at hand. \<open>on\<close> adds a persistent subscription and \<open>once\<close> a one-shot one;
  \<open>off\<close> removes every subscription with that name, callback and scope and does nothing
  when there is none; \<open>load\<close> only starts a load, whose completion is a later event.
\<close>

definition registry_get :: "world \<Rightarrow> asset_id \<Rightarrow> container_asset option" where
  "registry_get w i = store w i"

definition registry_load :: "rid \<Rightarrow> container_asset \<Rightarrow> world \<Rightarrow> world" where
  "registry_load this c w = w\<lparr>log := log w @ [LoadRequest this (c_id c)]\<rparr>"

definition same_listener :: "event \<Rightarrow> callback \<Rightarrow> rid \<Rightarrow> subscription \<Rightarrow> bool" where
  "same_listener n cb sc s \<longleftrightarrow> s_name s = n \<and> s_callback s = cb \<and> s_scope s = sc"

definition registry_on :: "event \<Rightarrow> callback \<Rightarrow> rid \<Rightarrow> world \<Rightarrow> world" where
  "registry_on n cb sc w =
     w\<lparr>subs := subs w @ [\<lparr>s_name = n, s_callback = cb, s_scope = sc, s_once = False\<rparr>]\<rparr>"

definition registry_once :: "event \<Rightarrow> callback \<Rightarrow> rid \<Rightarrow> world \<Rightarrow> world" where
  "registry_once n cb sc w =
     w\<lparr>subs := subs w @ [\<lparr>s_name = n, s_callback = cb, s_scope = sc, s_once = True\<rparr>]\<rparr>"

definition registry_off :: "event \<Rightarrow> callback \<Rightarrow> rid \<Rightarrow> world \<Rightarrow> world" where
  "registry_off n cb sc w = w\<lparr>subs := filter (\<lambda>s. \<not> same_listener n cb sc s) (subs w)\<rparr>"

subsection \<open>The callbacks and patch\<close>

text \<open>The setter \<open>renderAsset.resource.meshes = v\<close> and the call \<open>renderAsset.resource.destroy()\<close>.\<close>

definition set_meshes :: "rid \<Rightarrow> Render \<Rightarrow> ref option \<Rightarrow> world \<Rightarrow> world" where
  "set_meshes this r v w =
     w\<lparr>rassets := (rassets w)(this := (rassets w this)\<lparr>resource := Some (r\<lparr>meshes := v\<rparr>)\<rparr>),
       log := log w @ [SetMeshes this v]\<rparr>"

definition destroy_resource :: "rid \<Rightarrow> Render \<Rightarrow> world \<Rightarrow> world" where
  "destroy_resource this r w =
     w\<lparr>rassets := (rassets w)(this := (rassets w this)\<lparr>resource := Some (destroy r)\<rparr>),
       log := log w @ [Destroy this]\<rparr>"

text \<open>
  \<open>containerResource.renders && containerResource.renders[renderIndex]\<close>: falsy when
  \<open>renders\<close> is missing, when the index is past the end and when the slot is empty.
\<close>

definition lookup_render :: "container_resource \<Rightarrow> nat \<Rightarrow> render_entry option" where
  "lookup_render containerResource i =
     (case renders containerResource of
        None \<Rightarrow> None
      | Some rs \<Rightarrow> if i < length rs then rs ! i else None)"

definition onContainerAssetLoaded :: "rid \<Rightarrow> container_asset \<Rightarrow> world \<Rightarrow> result" where
  "onContainerAssetLoaded this containerAsset w =
     (case resource (rassets w this) of
        None \<Rightarrow> Inr w
      | Some r \<Rightarrow>
          (case c_resource containerAsset of
             None \<Rightarrow> Inl (TypeError, w)
           | Some containerResource \<Rightarrow>
               (case lookup_render containerResource (data_renderIndex (rassets w this)) of
                  None \<Rightarrow> Inr w
                | Some render \<Rightarrow>
                    (case e_resource render of
                       None \<Rightarrow> Inl (TypeError, w)
                     | Some rr \<Rightarrow> Inr (set_meshes this r (meshes rr) w)))))"

definition onContainerAssetAdded :: "rid \<Rightarrow> container_asset \<Rightarrow> world \<Rightarrow> result" where
  "onContainerAssetAdded this containerAsset w =
     (let w1 = registry_off (LoadEv (c_id containerAsset)) OnContainerAssetLoaded this w;
          w2 = registry_on (LoadEv (c_id containerAsset)) OnContainerAssetLoaded this w1;
          w3 = registry_off (RemoveEv (c_id containerAsset)) OnContainerAssetRemoved this w2;
          w4 = registry_once (RemoveEv (c_id containerAsset)) OnContainerAssetRemoved this w3
      in case c_resource containerAsset of
           None \<Rightarrow> Inr (registry_load this containerAsset w4)
         | Some _ \<Rightarrow> onContainerAssetLoaded this containerAsset w4)"

definition onContainerAssetRemoved :: "rid \<Rightarrow> container_asset \<Rightarrow> world \<Rightarrow> result" where
  "onContainerAssetRemoved this containerAsset w =
     (let w1 = registry_off (LoadEv (c_id containerAsset)) OnContainerAssetLoaded this w
      in case resource (rassets w1 this) of
           None \<Rightarrow> Inr w1
         | Some r \<Rightarrow> Inr (destroy_resource this r w1))"

text \<open>
  \<open>if (!asset.data.containerAsset) return\<close>: a missing id is falsy, and so is the
  number 0.
\<close>

definition truthy :: "asset_id option \<Rightarrow> bool" where
  "truthy x = (case x of None \<Rightarrow> False | Some i \<Rightarrow> i \<noteq> 0)"

definition patch :: "rid \<Rightarrow> world \<Rightarrow> result" where
  "patch asset w =
     (case data_containerAsset (rassets w asset) of
        None \<Rightarrow> Inr w
      | Some i \<Rightarrow>
          if i = 0 then Inr w
          else (case registry_get w i of
                  None \<Rightarrow> Inr (registry_once (AddEv i) OnContainerAssetAdded asset w)
                | Some containerAsset \<Rightarrow> onContainerAssetAdded asset containerAsset w))"

subsection \<open>Emission of an event\<close>

text \<open>
  Modelled from the spec: the emission of an event by the registry (\<open>fire\<close> of the event
  bus, which is not part of the sources at hand). The emission of \<open>n\<close> with the
  container asset \<open>c\<close> reaches the listeners subscribed to \<open>n\<close> at that moment. The
  one-shot ones among them are revoked by the firing; then the listeners run in the order
  of their subscription, each callback with its scope as \<open>this\<close> and \<open>c\<close> as its
  argument. An exception leaves the rest unrun and propagates to the emitter.
\<close>

fun invoke :: "callback \<Rightarrow> rid \<Rightarrow> container_asset \<Rightarrow> world \<Rightarrow> result" where
  "invoke OnContainerAssetLoaded this c w = onContainerAssetLoaded this c w"
| "invoke OnContainerAssetAdded this c w = onContainerAssetAdded this c w"
| "invoke OnContainerAssetRemoved this c w = onContainerAssetRemoved this c w"

fun dispatch :: "subscription list \<Rightarrow> container_asset \<Rightarrow> world \<Rightarrow> result" where
  "dispatch [] c w = Inr w"
| "dispatch (s # ss) c w =
     (case invoke (s_callback s) (s_scope s) c w of
        Inl e \<Rightarrow> Inl e
      | Inr w' \<Rightarrow> dispatch ss c w')"

definition revoke_once :: "event \<Rightarrow> world \<Rightarrow> world" where
  "revoke_once n w = w\<lparr>subs := filter (\<lambda>s. \<not> (s_name s = n \<and> s_once s)) (subs w)\<rparr>"

definition fire :: "event \<Rightarrow> container_asset \<Rightarrow> world \<Rightarrow> result" where
  "fire n c w = dispatch (filter (\<lambda>s. s_name s = n) (subs w)) c (revoke_once n w)"

text \<open>
  What can happen to a world: a call of \<open>patch\<close>, an emission, and the registry gaining
  or losing a container. A run continues after an exception from the world it left.
\<close>

datatype op = Patch rid | Fire event container_asset | StorePut asset_id "container_asset option"

fun step :: "op \<Rightarrow> world \<Rightarrow> world" where
  "step (Patch a) w = world_of (patch a w)"
| "step (Fire n c) w = world_of (fire n c w)"
| "step (StorePut i c) w = w\<lparr>store := (store w)(i := c)\<rparr>"

fun run :: "op list \<Rightarrow> world \<Rightarrow> world" where
  "run [] w = w"
| "run (x # xs) w = run xs (step x w)"

subsection \<open>Notions used by the properties\<close>

text \<open>
  What belongs to one render asset: the asset itself, the subscriptions whose scope it is
  and the effects it caused.
\<close>

fun actor :: "effect \<Rightarrow> rid" where
  "actor (LoadRequest a i) = a"
| "actor (SetMeshes a v) = a"
| "actor (Destroy a) = a"

definition own_subs :: "rid \<Rightarrow> world \<Rightarrow> subscription list" where
  "own_subs a w = filter (\<lambda>s. s_scope s = a) (subs w)"

definition own_log :: "rid \<Rightarrow> world \<Rightarrow> effect list" where
  "own_log a w = filter (\<lambda>e. actor e = a) (log w)"

definition own :: "rid \<Rightarrow> world \<Rightarrow> render_asset \<times> subscription list \<times> effect list" where
  "own a w = (rassets w a, own_subs a w, own_log a w)"

text \<open>
  The state of the bus that the handler maintains: every subscription pairs an event with
  its callback, registered with \<open>on\<close> for \<open>load:\<close> and with \<open>once\<close> for \<open>add:\<close> and
  \<open>remove:\<close>, and among the \<open>load:\<close> and \<open>remove:\<close> subscriptions no two have the
  same name, callback and scope.
\<close>

definition listener :: "subscription \<Rightarrow> event \<times> callback \<times> rid" where
  "listener s = (s_name s, s_callback s, s_scope s)"

definition kinded :: "subscription \<Rightarrow> bool" where
  "kinded s =
     (case s_name s of
        AddEv i \<Rightarrow> s_callback s = OnContainerAssetAdded \<and> s_once s
      | LoadEv i \<Rightarrow> s_callback s = OnContainerAssetLoaded \<and> \<not> s_once s
      | RemoveEv i \<Rightarrow> s_callback s = OnContainerAssetRemoved \<and> s_once s)"

definition is_add :: "subscription \<Rightarrow> bool" where
  "is_add s = (case s_name s of AddEv i \<Rightarrow> True | LoadEv i \<Rightarrow> False | RemoveEv i \<Rightarrow> False)"

definition inv_subs :: "subscription list \<Rightarrow> bool" where
  "inv_subs xs \<longleftrightarrow> list_all kinded xs \<and> distinct (map listener (filter (\<lambda>s. \<not> is_add s) xs))"

definition bus_inv :: "world \<Rightarrow> bool" where
  "bus_inv w \<longleftrightarrow> inv_subs (subs w)"

text \<open>
  A container asset as the container loader delivers it: each entry of \<open>renders\<close>
  that is there carries its resource.
\<close>

definition entry_ok :: "render_entry option \<Rightarrow> bool" where
  "entry_ok e = (case e of None \<Rightarrow> True | Some x \<Rightarrow> e_resource x \<noteq> None)"

definition entries_ok :: "container_asset \<Rightarrow> bool" where
  "entries_ok c =
     (case c_resource c of
        None \<Rightarrow> True
      | Some cr \<Rightarrow> (case renders cr of None \<Rightarrow> True | Some rs \<Rightarrow> list_all entry_ok rs))"

text \<open>The subscriptions with a given name, callback and scope.\<close>

definition listeners :: "event \<Rightarrow> callback \<Rightarrow> rid \<Rightarrow> world \<Rightarrow> subscription list" where
  "listeners n cb sc w = filter (same_listener n cb sc) (subs w)"

text \<open>
  The resource of the entry at index \<open>i\<close> of the container asset \<open>c\<close>, when the
  container is loaded and the entry is there with its resource: what
  \<open>render.resource\<close> is when line 17 of the handler runs.
\<close>

definition entry_at :: "nat \<Rightarrow> container_asset \<Rightarrow> Render option" where
  "entry_at i c =
     (case c_resource c of
        None \<Rightarrow> None
      | Some cr \<Rightarrow> (case lookup_render cr i of None \<Rightarrow> None | Some render \<Rightarrow> e_resource render))"









text \<open>Emitting the same event several times in a row, each time with its container.\<close>

fun fire_all :: "event \<Rightarrow> container_asset list \<Rightarrow> world \<Rightarrow> result" where
  "fire_all n [] w = Inr w"
| "fire_all n (c # cs) w = (case fire n c w of Inl e \<Rightarrow> Inl e | Inr w' \<Rightarrow> fire_all n cs w')"

text \<open>Calling the add-handling path \<open>k\<close> times in a row for the same pair.\<close>

fun added_times :: "nat \<Rightarrow> rid \<Rightarrow> container_asset \<Rightarrow> world \<Rightarrow> world" where
  "added_times 0 a c w = w"
| "added_times (Suc k) a c w = added_times k a c (world_of (onContainerAssetAdded a c w))"

subsection \<open>Auxiliary notions\<close>

text \<open>
  The subscriptions that the handler registers, and what the add-handling path makes of
  the list of subscriptions: it drops the \<open>load:\<close> and \<open>remove:\<close> listeners of the pair
  and appends one of each.
\<close>

definition load_sub :: "rid \<Rightarrow> asset_id \<Rightarrow> subscription" where
  "load_sub a i = \<lparr>s_name = LoadEv i, s_callback = OnContainerAssetLoaded, s_scope = a, s_once = False\<rparr>"

definition remove_sub :: "rid \<Rightarrow> asset_id \<Rightarrow> subscription" where
  "remove_sub a i = \<lparr>s_name = RemoveEv i, s_callback = OnContainerAssetRemoved, s_scope = a, s_once = True\<rparr>"

definition add_sub :: "rid \<Rightarrow> asset_id \<Rightarrow> subscription" where
  "add_sub a i = \<lparr>s_name = AddEv i, s_callback = OnContainerAssetAdded, s_scope = a, s_once = True\<rparr>"

definition resubscribe :: "rid \<Rightarrow> asset_id \<Rightarrow> subscription list \<Rightarrow> subscription list" where
  "resubscribe a i xs =
     filter (\<lambda>s. \<not> same_listener (RemoveEv i) OnContainerAssetRemoved a s)
       (filter (\<lambda>s. \<not> same_listener (LoadEv i) OnContainerAssetLoaded a s) xs)
     @ [load_sub a i, remove_sub a i]"




fun callback_of :: "event \<Rightarrow> callback" where
  "callback_of (AddEv i) = OnContainerAssetAdded"
| "callback_of (LoadEv i) = OnContainerAssetLoaded"
| "callback_of (RemoveEv i) = OnContainerAssetRemoved"

text \<open>
  The parts of a render asset that the handler only reads (with whether its resource is
  missing), and the parts of the world that it never writes.
\<close>

definition shape :: "rid \<Rightarrow> world \<Rightarrow> asset_id option \<times> nat \<times> bool" where
  "shape x w = (data_containerAsset (rassets w x), data_renderIndex (rassets w x),
                resource (rassets w x) = None)"

definition globals :: "world \<Rightarrow> (asset_id \<Rightarrow> container_asset option) \<times> (ref \<Rightarrow> mesh list)" where
  "globals w = (store w, mesh_lists w)"

subsection \<open>Worlds and container assets to run the handler on\<close>

definition asset0 :: render_asset where
  "asset0 = \<lparr>data_containerAsset = Some 1, data_renderIndex = 0, resource = Some open_render\<rparr>"

definition world0 :: world where
  "world0 = \<lparr>store = (\<lambda>i. None), subs = [], rassets = (\<lambda>a. asset0),
              mesh_lists = (\<lambda>l. []), log = []\<rparr>"

text \<open>
  The container asset 1 before it is loaded, once loaded with one render whose meshes are
  the list at address 7, and with a render that has no resource.
\<close>

definition container_unloaded :: container_asset where
  "container_unloaded = \<lparr>c_id = 1, c_resource = None\<rparr>"

definition container_loaded :: container_asset where
  "container_loaded =
     \<lparr>c_id = 1,
      c_resource = Some \<lparr>renders = Some [Some \<lparr>e_resource = Some \<lparr>meshes = Some 7\<rparr>\<rparr>]\<rparr>\<rparr>"

definition container_hollow :: container_asset where
  "container_hollow =
     \<lparr>c_id = 1, c_resource = Some \<lparr>renders = Some [Some \<lparr>e_resource = None\<rparr>]\<rparr>\<rparr>"

text \<open>
  The world in which the registry holds the loaded container, the one in which the render
  asset has lost its resource, and the one in which its render index is past the end.
\<close>

definition world_loaded :: world where
  "world_loaded = world0\<lparr>store := (\<lambda>i. if i = 1 then Some container_loaded else None)\<rparr>"

definition world_torn :: world where
  "world_torn = world0\<lparr>rassets := (\<lambda>a. asset0\<lparr>resource := None\<rparr>)\<rparr>"

definition world_far :: world where
  "world_far = world0\<lparr>rassets := (\<lambda>a. asset0\<lparr>data_renderIndex := 3\<rparr>)\<rparr>"

text \<open>
  The world that \<open>patch\<close> leaves when it binds the render asset 0 in \<open>world_loaded\<close>, and
  the world in which the render assets name no container.
\<close>

definition world_bound :: world where
  "world_bound =
     world_loaded\<lparr>subs := [load_sub 0 1, remove_sub 0 1],
       rassets := (rassets world_loaded)(0 := asset0\<lparr>resource := Some \<lparr>meshes = Some 7\<rparr>\<rparr>),
       log := [SetMeshes 0 (Some 7)]\<rparr>"

definition world_unbound :: world where
  "world_unbound = world0\<lparr>rassets := (\<lambda>a. asset0\<lparr>data_containerAsset := None\<rparr>)\<rparr>"


text \<open>
  Two \<open>load:\<close> events in a row, each delivering the loaded container, with the meshes that
  the entry of each holds.
\<close>

definition loads_twice :: "(container_asset \<times> ref option) list" where
  "loads_twice = [(container_loaded, Some 7), (container_loaded, Some 7)]"

section \<open>Facts about the callbacks and the bus\<close>

subsection \<open>The fields of the world after each operation\<close>

lemma registry_on_fields [simp]:
  "subs (registry_on n cb sc w) = subs w @ [\<lparr>s_name = n, s_callback = cb, s_scope = sc, s_once = False\<rparr>]"
  "rassets (registry_on n cb sc w) = rassets w"
  "log (registry_on n cb sc w) = log w"
  "store (registry_on n cb sc w) = store w"
  "mesh_lists (registry_on n cb sc w) = mesh_lists w"
  by (simp_all add: registry_on_def)

lemma registry_once_fields [simp]:
  "subs (registry_once n cb sc w) = subs w @ [\<lparr>s_name = n, s_callback = cb, s_scope = sc, s_once = True\<rparr>]"
  "rassets (registry_once n cb sc w) = rassets w"
  "log (registry_once n cb sc w) = log w"
  "store (registry_once n cb sc w) = store w"
  "mesh_lists (registry_once n cb sc w) = mesh_lists w"
  by (simp_all add: registry_once_def)

lemma registry_off_fields [simp]:
  "subs (registry_off n cb sc w) = filter (\<lambda>s. \<not> same_listener n cb sc s) (subs w)"
  "rassets (registry_off n cb sc w) = rassets w"
  "log (registry_off n cb sc w) = log w"
  "store (registry_off n cb sc w) = store w"
  "mesh_lists (registry_off n cb sc w) = mesh_lists w"
  by (simp_all add: registry_off_def)

lemma registry_load_fields [simp]:
  "subs (registry_load a c w) = subs w"
  "rassets (registry_load a c w) = rassets w"
  "log (registry_load a c w) = log w @ [LoadRequest a (c_id c)]"
  "store (registry_load a c w) = store w"
  "mesh_lists (registry_load a c w) = mesh_lists w"
  by (simp_all add: registry_load_def)

lemma set_meshes_fields [simp]:
  "subs (set_meshes a r v w) = subs w"
  "rassets (set_meshes a r v w) = (rassets w)(a := (rassets w a)\<lparr>resource := Some (r\<lparr>meshes := v\<rparr>)\<rparr>)"
  "log (set_meshes a r v w) = log w @ [SetMeshes a v]"
  "store (set_meshes a r v w) = store w"
  "mesh_lists (set_meshes a r v w) = mesh_lists w"
  by (simp_all add: set_meshes_def)

lemma destroy_resource_fields [simp]:
  "subs (destroy_resource a r w) = subs w"
  "rassets (destroy_resource a r w) = (rassets w)(a := (rassets w a)\<lparr>resource := Some (destroy r)\<rparr>)"
  "log (destroy_resource a r w) = log w @ [Destroy a]"
  "store (destroy_resource a r w) = store w"
  "mesh_lists (destroy_resource a r w) = mesh_lists w"
  by (simp_all add: destroy_resource_def)

lemma lookup_render_None_iff:
  "lookup_render cr i = None \<longleftrightarrow>
     renders cr = None \<or> (\<exists>rs. renders cr = Some rs \<and> (length rs \<le> i \<or> rs ! i = None))"
  by (auto simp: lookup_render_def split: option.splits)

lemma revoke_once_fields [simp]:
  "subs (revoke_once n w) = filter (\<lambda>s. \<not> (s_name s = n \<and> s_once s)) (subs w)"
  "rassets (revoke_once n w) = rassets w"
  "log (revoke_once n w) = log w"
  "store (revoke_once n w) = store w"
  "mesh_lists (revoke_once n w) = mesh_lists w"
  by (simp_all add: revoke_once_def)

subsection \<open>What each callback leaves behind\<close>

lemma loaded_cases:
  "onContainerAssetLoaded a c w = Inr w
   \<or> onContainerAssetLoaded a c w = Inl (TypeError, w)
   \<or> (\<exists>r v. resource (rassets w a) = Some r \<and> onContainerAssetLoaded a c w = Inr (set_meshes a r v w))"
  by (auto simp: onContainerAssetLoaded_def split: option.splits)

lemma subs_loaded [simp]: "subs (world_of (onContainerAssetLoaded a c w)) = subs w"
  using loaded_cases[of a c w] by auto

lemma subs_removed [simp]:
  "subs (world_of (onContainerAssetRemoved a c w)) =
     filter (\<lambda>s. \<not> same_listener (LoadEv (c_id c)) OnContainerAssetLoaded a s) (subs w)"
  by (simp add: onContainerAssetRemoved_def Let_def split: option.splits)

lemma subs_added [simp]:
  "subs (world_of (onContainerAssetAdded a c w)) = resubscribe a (c_id c) (subs w)"
  by (simp add: onContainerAssetAdded_def Let_def resubscribe_def load_sub_def remove_sub_def
      same_listener_def split: option.splits)

lemma own_filter_other:
  "a \<noteq> b \<Longrightarrow> filter (\<lambda>s. \<not> same_listener n cb a s \<and> s_scope s = b) xs
     = filter (\<lambda>s. s_scope s = b) xs"
  by (rule filter_cong) (auto simp: same_listener_def)

lemma own_off_other: "a \<noteq> b \<Longrightarrow> own b (registry_off n cb a w) = own b w"
  by (simp add: own_def own_subs_def own_log_def own_filter_other)

lemma own_on_other: "a \<noteq> b \<Longrightarrow> own b (registry_on n cb a w) = own b w"
  by (simp add: own_def own_subs_def own_log_def)

lemma own_once_other: "a \<noteq> b \<Longrightarrow> own b (registry_once n cb a w) = own b w"
  by (simp add: own_def own_subs_def own_log_def)

lemma own_load_other: "a \<noteq> b \<Longrightarrow> own b (registry_load a c w) = own b w"
  by (simp add: own_def own_subs_def own_log_def)

lemma own_set_meshes_other: "a \<noteq> b \<Longrightarrow> own b (set_meshes a r v w) = own b w"
  by (simp add: own_def own_subs_def own_log_def)

lemma own_destroy_other: "a \<noteq> b \<Longrightarrow> own b (destroy_resource a r w) = own b w"
  by (simp add: own_def own_subs_def own_log_def)

lemmas own_other =
  own_off_other own_on_other own_once_other own_load_other own_set_meshes_other own_destroy_other

lemma own_loaded_other: "a \<noteq> b \<Longrightarrow> own b (world_of (onContainerAssetLoaded a c w)) = own b w"
  using loaded_cases[of a c w] by (auto simp: own_set_meshes_other)

lemma own_removed_other: "a \<noteq> b \<Longrightarrow> own b (world_of (onContainerAssetRemoved a c w)) = own b w"
  by (simp add: onContainerAssetRemoved_def Let_def own_other split: option.splits)

lemma own_added_other: "a \<noteq> b \<Longrightarrow> own b (world_of (onContainerAssetAdded a c w)) = own b w"
  by (simp add: onContainerAssetAdded_def Let_def own_other own_loaded_other split: option.splits)

lemma own_invoke_other: "a \<noteq> b \<Longrightarrow> own b (world_of (invoke cb a c w)) = own b w"
  by (cases cb) (simp_all add: own_loaded_other own_added_other own_removed_other)

lemma own_dispatch_other:
  "\<forall>s\<in>set ss. s_scope s \<noteq> b \<Longrightarrow> own b (world_of (dispatch ss c w)) = own b w"
proof (induction ss arbitrary: w)
  case Nil
  then show ?case by simp
next
  case (Cons s ss)
  have sb: "s_scope s \<noteq> b" using Cons.prems by simp
  show ?case
  proof (cases "invoke (s_callback s) (s_scope s) c w")
    case (Inl e)
    then show ?thesis using own_invoke_other[OF sb, of "s_callback s" c w] by simp
  next
    case (Inr w')
    then have "own b w' = own b w" using own_invoke_other[OF sb, of "s_callback s" c w] by simp
    moreover have "own b (world_of (dispatch ss c w')) = own b w'"
      using Cons.IH Cons.prems by simp
    ultimately show ?thesis using Inr by simp
  qed
qed

lemma own_revoke_other:
  "\<forall>s\<in>set (subs w). s_name s = n \<longrightarrow> s_scope s \<noteq> b \<Longrightarrow> own b (revoke_once n w) = own b w"
proof -
  assume h: "\<forall>s\<in>set (subs w). s_name s = n \<longrightarrow> s_scope s \<noteq> b"
  have "filter (\<lambda>s. s_scope s = b) (filter (\<lambda>s. \<not> (s_name s = n \<and> s_once s)) (subs w))
      = filter (\<lambda>s. s_scope s = b) (subs w)"
    unfolding filter_filter by (rule filter_cong) (use h in auto)
  then show ?thesis by (simp add: own_def own_subs_def own_log_def)
qed

lemma own_fire_other:
  assumes "\<forall>s\<in>set (subs w). s_name s = n \<longrightarrow> s_scope s \<noteq> b"
  shows "own b (world_of (fire n c w)) = own b w"
proof -
  have "\<forall>s\<in>set (filter (\<lambda>s. s_name s = n) (subs w)). s_scope s \<noteq> b"
    using assms by simp
  then show ?thesis
    unfolding fire_def using own_dispatch_other own_revoke_other[OF assms] by simp
qed

subsection \<open>The bus invariant\<close>

lemma kinded_load_sub [simp]: "kinded (load_sub a i)" "kinded (remove_sub a i)" "kinded (add_sub a i)"
  by (simp_all add: kinded_def load_sub_def remove_sub_def add_sub_def)

lemma is_add_subs [simp]: "\<not> is_add (load_sub a i)" "\<not> is_add (remove_sub a i)" "is_add (add_sub a i)"
  by (simp_all add: is_add_def load_sub_def remove_sub_def add_sub_def)

lemma listener_subs [simp]:
  "listener (load_sub a i) = (LoadEv i, OnContainerAssetLoaded, a)"
  "listener (remove_sub a i) = (RemoveEv i, OnContainerAssetRemoved, a)"
  "listener (add_sub a i) = (AddEv i, OnContainerAssetAdded, a)"
  by (simp_all add: listener_def load_sub_def remove_sub_def add_sub_def)

lemma same_listener_iff: "same_listener n cb sc s \<longleftrightarrow> listener s = (n, cb, sc)"
  by (auto simp: same_listener_def listener_def)

lemma bus_inv_subs: "bus_inv w \<longleftrightarrow> inv_subs (subs w)"
  by (simp add: bus_inv_def inv_subs_def inv_subs_def)

lemma inv_subs_filter: "inv_subs xs \<Longrightarrow> inv_subs (filter P xs)"
proof -
  assume h: "inv_subs xs"
  have "filter (\<lambda>s. \<not> is_add s) (filter P xs) = filter P (filter (\<lambda>s. \<not> is_add s) xs)"
    by (induction xs) auto
  then show ?thesis
    using h by (simp add: inv_subs_def list_all_iff del: filter_filter add: distinct_map_filter)
qed

lemma inv_subs_add: "inv_subs xs \<Longrightarrow> inv_subs (xs @ [add_sub a i])"
  by (simp add: inv_subs_def)

lemma inv_subs_resubscribe: "inv_subs xs \<Longrightarrow> inv_subs (resubscribe a i xs)"
proof -
  assume h: "inv_subs xs"
  let ?ys = "filter (\<lambda>s. \<not> same_listener (RemoveEv i) OnContainerAssetRemoved a s)
       (filter (\<lambda>s. \<not> same_listener (LoadEv i) OnContainerAssetLoaded a s) xs)"
  have ys: "inv_subs ?ys" using h by (intro inv_subs_filter)
  have nl: "(LoadEv i, OnContainerAssetLoaded, a) \<notin> listener ` set ?ys"
    and nr: "(RemoveEv i, OnContainerAssetRemoved, a) \<notin> listener ` set ?ys"
    by (auto simp: same_listener_iff)
  show ?thesis
    using ys nl nr unfolding resubscribe_def inv_subs_def by auto
qed

lemma bus_inv_loaded: "bus_inv w \<Longrightarrow> bus_inv (world_of (onContainerAssetLoaded a c w))"
  by (simp add: bus_inv_subs)

lemma bus_inv_added: "bus_inv w \<Longrightarrow> bus_inv (world_of (onContainerAssetAdded a c w))"
  by (simp add: bus_inv_subs inv_subs_resubscribe)

text \<open>
  The invariant also holds at the points inside \<open>onContainerAssetAdded\<close>: after each of
  its calls of \<open>off\<close> and \<open>on\<close> (the world after its \<open>once\<close> is covered above).
\<close>

lemma inv_subs_snoc:
  assumes "inv_subs xs" and "kinded s" and "listener s \<notin> listener ` set xs"
  shows "inv_subs (xs @ [s])"
  using assms by (auto simp: inv_subs_def)

lemma bus_inv_inside_added:
  assumes "bus_inv w"
  shows "bus_inv (registry_off (LoadEv i) OnContainerAssetLoaded a w)"
    and "bus_inv (registry_on (LoadEv i) OnContainerAssetLoaded a
           (registry_off (LoadEv i) OnContainerAssetLoaded a w))"
    and "bus_inv (registry_off (RemoveEv i) OnContainerAssetRemoved a
           (registry_on (LoadEv i) OnContainerAssetLoaded a
             (registry_off (LoadEv i) OnContainerAssetLoaded a w)))"
proof -
  let ?xs = "filter (\<lambda>s. \<not> same_listener (LoadEv i) OnContainerAssetLoaded a s) (subs w)"
  have 1: "inv_subs ?xs" using assms by (simp add: bus_inv_subs inv_subs_filter)
  have "listener (load_sub a i) \<notin> listener ` set ?xs"
    by (auto simp: same_listener_iff)
  then have 2: "inv_subs (?xs @ [load_sub a i])"
    using 1 by (intro inv_subs_snoc) simp_all
  show "bus_inv (registry_off (LoadEv i) OnContainerAssetLoaded a w)"
    using 1 by (simp add: bus_inv_subs)
  show "bus_inv (registry_on (LoadEv i) OnContainerAssetLoaded a
           (registry_off (LoadEv i) OnContainerAssetLoaded a w))"
    using 2 by (simp add: bus_inv_subs load_sub_def)
  show "bus_inv (registry_off (RemoveEv i) OnContainerAssetRemoved a
           (registry_on (LoadEv i) OnContainerAssetLoaded a
             (registry_off (LoadEv i) OnContainerAssetLoaded a w)))"
    using inv_subs_filter[OF 2] by (simp add: bus_inv_subs load_sub_def del: filter_append)
qed

lemma bus_inv_removed: "bus_inv w \<Longrightarrow> bus_inv (world_of (onContainerAssetRemoved a c w))"
  by (simp add: bus_inv_subs inv_subs_filter)

lemma bus_inv_invoke: "bus_inv w \<Longrightarrow> bus_inv (world_of (invoke cb a c w))"
  by (cases cb) (simp_all add: bus_inv_loaded bus_inv_added bus_inv_removed)

lemma dispatch_invariant:
  assumes "\<And>cb a w. P w \<Longrightarrow> P (world_of (invoke cb a c w))" and "P w"
  shows "P (world_of (dispatch ss c w))"
  using assms(2)
proof (induction ss arbitrary: w)
  case Nil
  then show ?case by simp
next
  case (Cons s ss)
  have i: "P (world_of (invoke (s_callback s) (s_scope s) c w))"
    using Cons.prems by (rule assms(1))
  show ?case
  proof (cases "invoke (s_callback s) (s_scope s) c w")
    case (Inl e)
    then show ?thesis using i by simp
  next
    case (Inr w')
    then show ?thesis using i Cons.IH[of w'] by simp
  qed
qed

lemma bus_inv_dispatch: "bus_inv w \<Longrightarrow> bus_inv (world_of (dispatch ss c w))"
  by (rule dispatch_invariant[where P = bus_inv]) (rule bus_inv_invoke)

lemma bus_inv_revoke: "bus_inv w \<Longrightarrow> bus_inv (revoke_once n w)"
  by (simp add: bus_inv_subs inv_subs_filter)

lemma bus_inv_fire: "bus_inv w \<Longrightarrow> bus_inv (world_of (fire n c w))"
  unfolding fire_def by (intro bus_inv_dispatch bus_inv_revoke)

lemma bus_inv_patch: "bus_inv w \<Longrightarrow> bus_inv (world_of (patch a w))"
proof -
  assume h: "bus_inv w"
  have "bus_inv (registry_once (AddEv i) OnContainerAssetAdded a w)" for i
    using h inv_subs_add[of "subs w" a i] by (simp add: bus_inv_subs add_sub_def)
  then show ?thesis
    using h by (simp add: patch_def bus_inv_added split: option.splits)
qed

lemma bus_inv_step: "bus_inv w \<Longrightarrow> bus_inv (step x w)"
  by (cases x) (simp_all add: bus_inv_patch bus_inv_fire, simp add: bus_inv_def inv_subs_def)

lemma bus_inv_run: "bus_inv w \<Longrightarrow> bus_inv (run xs w)"
  by (induction xs arbitrary: w) (simp_all add: bus_inv_step)

lemma bus_inv_empty: "subs w = [] \<Longrightarrow> bus_inv w"
  by (simp add: bus_inv_def inv_subs_def)

lemma distinct_map_filter_le1:
  "distinct (map f xs) \<Longrightarrow> length (filter (\<lambda>x. f x = k) xs) \<le> 1"
proof (induction xs)
  case Nil
  then show ?case by simp
next
  case (Cons x xs)
  show ?case
  proof (cases "f x = k")
    case True
    then have "\<forall>y\<in>set xs. f y \<noteq> k" using Cons.prems by (auto simp: image_iff)
    then have "filter (\<lambda>x. f x = k) xs = []" by (simp add: filter_empty_conv)
    with True show ?thesis by simp
  next
    case False
    then show ?thesis using Cons by simp
  qed
qed

lemma bus_inv_at_most_one:
  assumes "bus_inv w" and "cb \<noteq> OnContainerAssetAdded"
  shows "length (listeners n cb a w) \<le> 1"
proof -
  have k: "\<forall>s\<in>set (subs w). kinded s" and d: "distinct (map listener (filter (\<lambda>s. \<not> is_add s) (subs w)))"
    using assms(1) by (simp_all add: bus_inv_def inv_subs_def list_all_iff)
  have "filter (same_listener n cb a) (subs w)
      = filter (\<lambda>s. listener s = (n, cb, a)) (filter (\<lambda>s. \<not> is_add s) (subs w))"
    unfolding filter_filter
    by (rule filter_cong)
      (use k assms(2) in \<open>auto simp: same_listener_def listener_def kinded_def is_add_def split: event.splits\<close>)
  then show ?thesis
    using distinct_map_filter_le1[OF d, of "(n, cb, a)"] by (simp add: listeners_def)
qed

subsection \<open>What no callback touches\<close>

lemma shape_loaded: "shape x (world_of (onContainerAssetLoaded a c w)) = shape x w"
  using loaded_cases[of a c w] by (auto simp: shape_def split: if_splits)

lemma shape_removed: "shape x (world_of (onContainerAssetRemoved a c w)) = shape x w"
  by (auto simp: onContainerAssetRemoved_def Let_def shape_def split: option.splits)

lemma shape_added: "shape x (world_of (onContainerAssetAdded a c w)) = shape x w"
proof (cases "c_resource c")
  case None
  then show ?thesis by (simp add: onContainerAssetAdded_def Let_def shape_def)
next
  case (Some cr)
  then show ?thesis
    using shape_loaded[of x a c] by (simp add: onContainerAssetAdded_def Let_def) (simp add: shape_def)
qed

lemma shape_invoke: "shape x (world_of (invoke cb a c w)) = shape x w"
  by (cases cb) (simp_all add: shape_loaded shape_added shape_removed)

lemma globals_loaded: "globals (world_of (onContainerAssetLoaded a c w)) = globals w"
  using loaded_cases[of a c w] by (auto simp: globals_def)

lemma globals_removed: "globals (world_of (onContainerAssetRemoved a c w)) = globals w"
  by (auto simp: onContainerAssetRemoved_def Let_def globals_def split: option.splits)

lemma globals_added: "globals (world_of (onContainerAssetAdded a c w)) = globals w"
proof (cases "c_resource c")
  case None
  then show ?thesis by (simp add: onContainerAssetAdded_def Let_def globals_def)
next
  case (Some cr)
  then show ?thesis
    using globals_loaded[of a c] by (simp add: onContainerAssetAdded_def Let_def) (simp add: globals_def)
qed

lemma globals_invoke: "globals (world_of (invoke cb a c w)) = globals w"
  by (cases cb) (simp_all add: globals_loaded globals_added globals_removed)

lemma dispatch_preserves:
  assumes "\<And>cb a w. f (world_of (invoke cb a c w)) = f w"
  shows "f (world_of (dispatch ss c w)) = f w"
proof (induction ss arbitrary: w)
  case Nil
  then show ?case by simp
next
  case (Cons s ss)
  show ?case
  proof (cases "invoke (s_callback s) (s_scope s) c w")
    case (Inl e)
    then show ?thesis using assms[of "s_callback s" "s_scope s" w] by simp
  next
    case (Inr w')
    then show ?thesis using assms[of "s_callback s" "s_scope s" w] Cons.IH[of w'] by simp
  qed
qed

lemma shape_fire: "shape x (world_of (fire n c w)) = shape x w"
proof -
  have "shape x (world_of (fire n c w)) = shape x (revoke_once n w)"
    unfolding fire_def by (rule dispatch_preserves) (rule shape_invoke)
  then show ?thesis by (simp add: shape_def)
qed

lemma globals_fire: "globals (world_of (fire n c w)) = globals w"
proof -
  have "globals (world_of (fire n c w)) = globals (revoke_once n w)"
    unfolding fire_def by (rule dispatch_preserves) (rule globals_invoke)
  then show ?thesis by (simp add: globals_def)
qed

lemma shape_patch: "shape x (world_of (patch a w)) = shape x w"
proof -
  have "shape x (registry_once n cb a w) = shape x w" for n cb
    by (simp add: shape_def)
  then show ?thesis by (simp add: patch_def shape_added split: option.splits)
qed

lemma shape_step: "shape x (step y w) = shape x w"
  by (cases y) (simp_all add: shape_patch shape_fire, simp add: shape_def)

lemma shape_run: "shape x (run ys w) = shape x w"
  by (induction ys arbitrary: w) (simp_all add: shape_step)

subsection \<open>When no callback throws\<close>

lemma entries_ok_lookup:
  assumes "entries_ok c" and "c_resource c = Some cr" and "lookup_render cr i = Some render"
  shows "\<exists>rr. e_resource render = Some rr"
proof -
  from assms(3) obtain rs where rs: "renders cr = Some rs" "i < length rs" "rs ! i = Some render"
    by (auto simp: lookup_render_def split: option.splits if_splits)
  from assms(1,2) rs(1) have "\<forall>n<length rs. entry_ok (rs ! n)"
    by (simp add: entries_ok_def list_all_length)
  with rs(2) have "entry_ok (rs ! i)" by blast
  with rs(3) show ?thesis by (simp add: entry_ok_def)
qed

lemma loaded_assigns:
  assumes "resource (rassets w a) = Some r" and "c_resource c = Some cr"
    and "lookup_render cr (data_renderIndex (rassets w a)) = Some render"
    and "e_resource render = Some rr"
  shows "onContainerAssetLoaded a c w = Inr (set_meshes a r (meshes rr) w)"
  using assms by (simp add: onContainerAssetLoaded_def)

lemma no_throw_loaded:
  assumes "entries_ok c" and "c_resource c \<noteq> None"
  shows "\<exists>w'. onContainerAssetLoaded a c w = Inr w'"
proof -
  from assms(2) obtain cr where cr: "c_resource c = Some cr" by auto
  show ?thesis
  proof (cases "resource (rassets w a)")
    case None
    then show ?thesis by (simp add: onContainerAssetLoaded_def)
  next
    case (Some r)
    show ?thesis
    proof (cases "lookup_render cr (data_renderIndex (rassets w a))")
      case None
      with Some cr show ?thesis by (simp add: onContainerAssetLoaded_def)
    next
      case (Some render)
      with entries_ok_lookup[OF assms(1) cr Some] \<open>resource (rassets w a) = Some r\<close> cr
      show ?thesis by (auto simp: onContainerAssetLoaded_def)
    qed
  qed
qed

lemma no_throw_added:
  assumes "entries_ok c"
  shows "\<exists>w'. onContainerAssetAdded a c w = Inr w'"
proof (cases "c_resource c")
  case None
  then show ?thesis by (simp add: onContainerAssetAdded_def Let_def)
next
  case (Some cr)
  then show ?thesis
    using no_throw_loaded[OF assms, of a] by (simp add: onContainerAssetAdded_def Let_def)
qed

lemma no_throw_removed: "\<exists>w'. onContainerAssetRemoved a c w = Inr w'"
  by (simp add: onContainerAssetRemoved_def Let_def split: option.splits)

lemma no_throw_invoke:
  assumes "entries_ok c" and "cb = OnContainerAssetLoaded \<longrightarrow> c_resource c \<noteq> None"
  shows "\<exists>w'. invoke cb a c w = Inr w'"
  using assms by (cases cb) (simp_all add: no_throw_loaded no_throw_added no_throw_removed)

lemma no_throw_dispatch:
  assumes "entries_ok c"
    and "\<forall>s\<in>set ss. s_callback s = OnContainerAssetLoaded \<longrightarrow> c_resource c \<noteq> None"
  shows "\<exists>w'. dispatch ss c w = Inr w'"
  using assms(2)
proof (induction ss arbitrary: w)
  case Nil
  then show ?case by simp
next
  case (Cons s ss)
  then obtain w1 where "invoke (s_callback s) (s_scope s) c w = Inr w1"
    using no_throw_invoke[OF assms(1), of "s_callback s" "s_scope s" w] by auto
  then show ?case using Cons by simp
qed

lemma dispatch_append:
  "dispatch (xs @ ys) c w = (case dispatch xs c w of Inl e \<Rightarrow> Inl e | Inr w' \<Rightarrow> dispatch ys c w')"
  by (induction xs arbitrary: w) (simp_all split: sum.splits)

subsection \<open>The listeners that an emission reaches\<close>

lemma bus_inv_kinded: "bus_inv w \<Longrightarrow> t \<in> set (subs w) \<Longrightarrow> kinded t"
  by (simp add: bus_inv_def inv_subs_def list_all_iff)

lemma hit_distinct:
  assumes "bus_inv w" and "\<forall>i. n \<noteq> AddEv i"
  shows "distinct (map listener (filter (\<lambda>t. s_name t = n) (subs w)))"
proof -
  have "filter (\<lambda>t. s_name t = n) (subs w)
      = filter (\<lambda>t. s_name t = n) (filter (\<lambda>s. \<not> is_add s) (subs w))"
    unfolding filter_filter
    by (rule filter_cong) (use assms(2) in \<open>auto simp: is_add_def split: event.splits\<close>)
  then show ?thesis
    using assms(1) by (simp add: bus_inv_def inv_subs_def distinct_map_filter del: filter_filter)
qed

lemma split_hit:
  assumes "bus_inv w" and "\<forall>i. n \<noteq> AddEv i" and "listeners n cb a w \<noteq> []"
  shows "\<exists>xs s ys. filter (\<lambda>t. s_name t = n) (subs w) = xs @ s # ys
            \<and> same_listener n cb a s
            \<and> (\<forall>t\<in>set xs \<union> set ys. s_scope t \<noteq> a \<and> s_callback t = cb)"
proof -
  let ?hit = "filter (\<lambda>t. s_name t = n) (subs w)"
  from assms(3) obtain s where s: "s \<in> set (subs w)" "same_listener n cb a s"
    by (auto simp: listeners_def filter_empty_conv)
  then have "s \<in> set ?hit" by (simp add: same_listener_def)
  then obtain xs ys where sp: "?hit = xs @ s # ys" by (auto dest: split_list)
  have d: "distinct (map listener (xs @ s # ys))"
    using hit_distinct[OF assms(1,2)] sp by simp
  have "s_scope t \<noteq> a \<and> s_callback t = cb" if t: "t \<in> set xs \<union> set ys" for t
  proof -
    have "t \<in> set ?hit" using t sp by auto
    then have tw: "t \<in> set (subs w)" and tn: "s_name t = n" by auto
    have "kinded t" "kinded s" using bus_inv_kinded[OF assms(1)] tw s(1) by auto
    then have cb: "s_callback t = cb"
      using tn s(2) by (auto simp: kinded_def same_listener_def split: event.splits)
    have "listener s \<notin> listener ` (set xs \<union> set ys)" using d by auto
    then have "listener t \<noteq> listener s" using t by (metis imageI)
    then show ?thesis using cb tn s(2) by (auto simp: listener_def same_listener_def)
  qed
  with sp s(2) show ?thesis by blast
qed

lemma own_dispatch_Inr:
  assumes "dispatch ss c w = Inr w'" and "\<forall>s\<in>set ss. s_scope s \<noteq> b"
  shows "own b w' = own b w"
  using own_dispatch_other[OF assms(2), of c w] assms(1) by simp

lemma fire_load_assigns:
  assumes inv: "bus_inv w" and sub: "listeners (LoadEv i) OnContainerAssetLoaded a w \<noteq> []"
    and ok: "entries_ok c" and cr: "c_resource c = Some cr"
    and r: "resource (rassets w a) = Some r"
    and e: "lookup_render cr (data_renderIndex (rassets w a)) = Some render"
    and rr: "e_resource render = Some rr"
  shows "\<exists>w'. fire (LoadEv i) c w = Inr w'
           \<and> rassets w' a = (rassets w a)\<lparr>resource := Some (r\<lparr>meshes := meshes rr\<rparr>)\<rparr>
           \<and> own_log a w' = own_log a w @ [SetMeshes a (meshes rr)]
           \<and> mesh_lists w' = mesh_lists w"
proof -
  let ?w0 = "revoke_once (LoadEv i) w"
  from split_hit[OF inv _ sub] obtain xs s ys
    where sp: "filter (\<lambda>t. s_name t = LoadEv i) (subs w) = xs @ s # ys"
      and s: "same_listener (LoadEv i) OnContainerAssetLoaded a s"
      and oth: "\<forall>t\<in>set xs \<union> set ys. s_scope t \<noteq> a \<and> s_callback t = OnContainerAssetLoaded"
    by auto
  have nt: "\<exists>w'. dispatch zs c v = Inr w'" for zs v
    using no_throw_dispatch[OF ok, of zs v] cr by simp
  obtain w1 where w1: "dispatch xs c ?w0 = Inr w1" using nt by blast
  have o1: "own a w1 = own a ?w0" using own_dispatch_Inr[OF w1] oth by simp
  have o0: "rassets ?w0 a = rassets w a" "own_log a ?w0 = own_log a w"
    by (simp_all add: own_log_def)
  have a1: "rassets w1 a = rassets w a" "own_log a w1 = own_log a w"
    using o1 o0 by (simp_all add: own_def)
  let ?w2 = "set_meshes a r (meshes rr) w1"
  have i2: "invoke (s_callback s) (s_scope s) c w1 = Inr ?w2"
    using s a1 r cr e rr by (simp add: same_listener_def loaded_assigns)
  obtain w3 where w3: "dispatch ys c ?w2 = Inr w3" using nt by blast
  have o3: "own a w3 = own a ?w2" using own_dispatch_Inr[OF w3] oth by simp
  have f: "fire (LoadEv i) c w = Inr w3"
    by (simp add: fire_def sp dispatch_append w1 i2 w3)
  have g: "globals w3 = globals w"
    using globals_fire[of "LoadEv i" c w] f by simp
  have "rassets w3 a = (rassets w a)\<lparr>resource := Some (r\<lparr>meshes := meshes rr\<rparr>)\<rparr>"
    using o3 a1 by (simp add: own_def)
  moreover have "own_log a w3 = own_log a w @ [SetMeshes a (meshes rr)]"
    using o3 a1 by (simp add: own_def) (simp add: own_log_def)
  ultimately show ?thesis using f g by (simp add: globals_def)
qed

subsection \<open>The add-handling path and the listeners of a pair\<close>

lemma listeners_resubscribe:
  "filter (same_listener (LoadEv i) OnContainerAssetLoaded a) (resubscribe a i xs) = [load_sub a i]"
  "filter (same_listener (RemoveEv i) OnContainerAssetRemoved a) (resubscribe a i xs) = [remove_sub a i]"
  by (simp_all add: resubscribe_def filter_empty_conv)
     (simp_all add: same_listener_def load_sub_def remove_sub_def)

lemma listeners_added:
  "listeners (LoadEv (c_id c)) OnContainerAssetLoaded a (world_of (onContainerAssetAdded a c w))
     = [load_sub a (c_id c)]"
  "listeners (RemoveEv (c_id c)) OnContainerAssetRemoved a (world_of (onContainerAssetAdded a c w))
     = [remove_sub a (c_id c)]"
  by (simp_all add: listeners_def listeners_resubscribe)

lemma load_sub_kept:
  "load_sub b i \<in> set xs \<Longrightarrow> load_sub b i \<in> set (resubscribe a i xs)"
  by (auto simp: resubscribe_def same_listener_def load_sub_def remove_sub_def)

lemma added_unloaded:
  "c_resource c = None \<Longrightarrow>
     onContainerAssetAdded a c w =
       Inr (w\<lparr>subs := resubscribe a (c_id c) (subs w), log := log w @ [LoadRequest a (c_id c)]\<rparr>)"
  by (simp add: onContainerAssetAdded_def Let_def resubscribe_def load_sub_def remove_sub_def
      same_listener_def registry_load_def registry_once_def registry_on_def registry_off_def)

lemma dispatch_added_unloaded:
  assumes "c_resource c = None" and "\<forall>s\<in>set ss. s_callback s = OnContainerAssetAdded"
  shows "\<exists>w'. dispatch ss c w = Inr w' \<and> rassets w' = rassets w
           \<and> (\<forall>b. load_sub b (c_id c) \<in> set (subs w) \<or> b \<in> s_scope ` set ss
                  \<longrightarrow> load_sub b (c_id c) \<in> set (subs w'))"
  using assms(2)
proof (induction ss arbitrary: w)
  case Nil
  then show ?case by simp
next
  case (Cons s ss)
  let ?w1 = "w\<lparr>subs := resubscribe (s_scope s) (c_id c) (subs w),
                 log := log w @ [LoadRequest (s_scope s) (c_id c)]\<rparr>"
  have i: "invoke (s_callback s) (s_scope s) c w = Inr ?w1"
    using Cons.prems assms(1) by (simp add: added_unloaded)
  from Cons.IH[of ?w1] Cons.prems obtain w'
    where w': "dispatch ss c ?w1 = Inr w'" "rassets w' = rassets ?w1"
      and k: "\<forall>b. load_sub b (c_id c) \<in> set (subs ?w1) \<or> b \<in> s_scope ` set ss
                  \<longrightarrow> load_sub b (c_id c) \<in> set (subs w')"
    by auto
  have "load_sub b (c_id c) \<in> set (subs w')"
    if "load_sub b (c_id c) \<in> set (subs w) \<or> b \<in> s_scope ` set (s # ss)" for b
  proof -
    have "load_sub (s_scope s) (c_id c) \<in> set (subs ?w1)"
      by (simp add: resubscribe_def)
    moreover have "load_sub b (c_id c) \<in> set (subs ?w1)" if "load_sub b (c_id c) \<in> set (subs w)"
      using that by (simp add: load_sub_kept)
    ultimately show ?thesis using that k by auto
  qed
  with i w' show ?case by simp
qed

lemma kinded_name:
  "kinded t \<Longrightarrow> s_name t = AddEv i \<Longrightarrow> s_callback t = OnContainerAssetAdded \<and> s_once t"
  "kinded t \<Longrightarrow> s_name t = LoadEv i \<Longrightarrow> s_callback t = OnContainerAssetLoaded \<and> \<not> s_once t"
  "kinded t \<Longrightarrow> s_name t = RemoveEv i \<Longrightarrow> s_callback t = OnContainerAssetRemoved \<and> s_once t"
  by (simp_all add: kinded_def)

lemma fire_add_unloaded:
  assumes inv: "bus_inv w" and sub: "add_sub a (c_id c) \<in> set (subs w)" and c: "c_resource c = None"
  shows "\<exists>w'. fire (AddEv (c_id c)) c w = Inr w' \<and> rassets w' = rassets w
           \<and> listeners (LoadEv (c_id c)) OnContainerAssetLoaded a w' \<noteq> []"
proof -
  let ?hit = "filter (\<lambda>t. s_name t = AddEv (c_id c)) (subs w)"
  have cb: "\<forall>s\<in>set ?hit. s_callback s = OnContainerAssetAdded"
    using bus_inv_kinded[OF inv] kinded_name(1) by auto
  have "a \<in> s_scope ` set ?hit"
    using sub by (force simp: add_sub_def)
  with dispatch_added_unloaded[OF c cb, of "revoke_once (AddEv (c_id c)) w"]
  obtain w' where w': "dispatch ?hit c (revoke_once (AddEv (c_id c)) w) = Inr w'"
      "rassets w' = rassets w" "load_sub a (c_id c) \<in> set (subs w')"
    by auto
  have "same_listener (LoadEv (c_id c)) OnContainerAssetLoaded a (load_sub a (c_id c))"
    by (simp add: same_listener_def load_sub_def)
  with w'(3) have "listeners (LoadEv (c_id c)) OnContainerAssetLoaded a w' \<noteq> []"
    by (auto simp: listeners_def filter_empty_conv)
  with w'(1,2) show ?thesis by (simp add: fire_def)
qed

subsection \<open>Removal\<close>

lemma no_throw_dispatch_removed:
  assumes "\<forall>s\<in>set ss. s_callback s = OnContainerAssetRemoved"
  shows "\<exists>w'. dispatch ss c w = Inr w'"
  using assms
proof (induction ss arbitrary: w)
  case Nil
  then show ?case by simp
next
  case (Cons s ss)
  obtain w1 where "onContainerAssetRemoved (s_scope s) c w = Inr w1"
    using no_throw_removed by blast
  then show ?case using Cons by simp
qed

lemma removed_present:
  "resource (rassets w a) = Some r \<Longrightarrow>
     onContainerAssetRemoved a c w =
       Inr (destroy_resource a r (registry_off (LoadEv (c_id c)) OnContainerAssetLoaded a w))"
  by (simp add: onContainerAssetRemoved_def Let_def)

lemma fire_remove_destroys:
  assumes inv: "bus_inv w" and sub: "listeners (RemoveEv i) OnContainerAssetRemoved a w \<noteq> []"
    and r: "resource (rassets w a) = Some r" and c: "c_id c = i"
  shows "\<exists>w'. fire (RemoveEv i) c w = Inr w'
           \<and> rassets w' a = (rassets w a)\<lparr>resource := Some (destroy r)\<rparr>
           \<and> own_log a w' = own_log a w @ [Destroy a]
           \<and> (\<forall>t\<in>set (subs w'). s_scope t = a \<longrightarrow> s_name t \<noteq> LoadEv i \<and> s_name t \<noteq> RemoveEv i)
           \<and> bus_inv w'"
proof -
  let ?w0 = "revoke_once (RemoveEv i) w"
  from split_hit[OF inv _ sub] obtain xs s ys
    where sp: "filter (\<lambda>t. s_name t = RemoveEv i) (subs w) = xs @ s # ys"
      and s: "same_listener (RemoveEv i) OnContainerAssetRemoved a s"
      and oth: "\<forall>t\<in>set xs \<union> set ys. s_scope t \<noteq> a \<and> s_callback t = OnContainerAssetRemoved"
    by auto
  obtain w1 where w1: "dispatch xs c ?w0 = Inr w1"
    using no_throw_dispatch_removed[of xs c ?w0] oth by auto
  have o1: "own a w1 = own a ?w0" using own_dispatch_Inr[OF w1] oth by simp
  have a1: "rassets w1 a = rassets w a" "own_log a w1 = own_log a w"
    "own_subs a w1 = own_subs a ?w0"
    using o1 by (simp_all add: own_def own_log_def)
  let ?w2 = "destroy_resource a r (registry_off (LoadEv i) OnContainerAssetLoaded a w1)"
  have i2: "invoke (s_callback s) (s_scope s) c w1 = Inr ?w2"
    using s a1 r c by (simp add: same_listener_def removed_present)
  obtain w3 where w3: "dispatch ys c ?w2 = Inr w3"
    using no_throw_dispatch_removed[of ys c ?w2] oth by auto
  have o3: "own a w3 = own a ?w2" using own_dispatch_Inr[OF w3] oth by simp
  have f: "fire (RemoveEv i) c w = Inr w3"
    by (simp add: fire_def sp dispatch_append w1 i2 w3)
  have b: "bus_inv w3" using bus_inv_fire[OF inv, of "RemoveEv i" c] f by simp
  have ra: "rassets w3 a = (rassets w a)\<lparr>resource := Some (destroy r)\<rparr>"
    using o3 a1 by (simp add: own_def)
  have lg: "own_log a w3 = own_log a w @ [Destroy a]"
    using o3 a1 by (simp add: own_def) (simp add: own_log_def)
  have os: "own_subs a w3
      = filter (\<lambda>s. \<not> same_listener (LoadEv i) OnContainerAssetLoaded a s) (own_subs a ?w0)"
  proof -
    have "own_subs a w3 = own_subs a ?w2" using o3 by (simp add: own_def)
    also have "\<dots> = filter (\<lambda>s. \<not> same_listener (LoadEv i) OnContainerAssetLoaded a s) (own_subs a w1)"
      by (simp add: own_subs_def conj_commute)
    finally show ?thesis using a1 by simp
  qed
  have "s_name t \<noteq> LoadEv i \<and> s_name t \<noteq> RemoveEv i" if t: "t \<in> set (subs w3)" "s_scope t = a" for t
  proof -
    have "t \<in> set (own_subs a w3)" using t by (simp add: own_subs_def)
    then have nl: "\<not> same_listener (LoadEv i) OnContainerAssetLoaded a t"
      and t0: "t \<in> set (subs w)" "\<not> (s_name t = RemoveEv i \<and> s_once t)"
      unfolding os by (auto simp: own_subs_def)
    have "kinded t" using bus_inv_kinded[OF inv t0(1)] .
    then show ?thesis
      using nl t0(2) t(2) by (auto simp: kinded_def same_listener_def split: event.splits)
  qed
  with f ra lg b show ?thesis by blast
qed

subsection \<open>Calling patch while the container is not in the registry\<close>

lemma patch_absent:
  assumes "data_containerAsset (rassets w a) = Some i" and "i \<noteq> 0" and "registry_get w i = None"
  shows "patch a w = Inr (w\<lparr>subs := subs w @ [add_sub a i]\<rparr>)"
  using assms by (simp add: patch_def registry_once_def add_sub_def)

lemma patch_found:
  assumes "data_containerAsset (rassets w asset) = Some i" and "i \<noteq> 0"
    and "registry_get w i = Some containerAsset"
  shows "patch asset w = onContainerAssetAdded asset containerAsset w"
  using assms by (simp add: patch_def)


lemma run_patch_absent:
  assumes "data_containerAsset (rassets w a) = Some i" and "i \<noteq> 0" and "registry_get w i = None"
  shows "run (replicate n (Patch a)) w = w\<lparr>subs := subs w @ replicate n (add_sub a i)\<rparr>"
  using assms
proof (induction n arbitrary: w)
  case 0
  then show ?case by simp
next
  case (Suc n)
  let ?w1 = "w\<lparr>subs := subs w @ [add_sub a i]\<rparr>"
  have "run (replicate n (Patch a)) ?w1 = ?w1\<lparr>subs := subs ?w1 @ replicate n (add_sub a i)\<rparr>"
    using Suc.prems by (intro Suc.IH) (simp_all add: registry_get_def)
  then show ?case
    using patch_absent[OF Suc.prems] by (simp add: replicate_app_Cons_same)
qed

lemma dispatch_replicate_added:
  assumes "entries_ok c"
  shows "dispatch (replicate n (add_sub a i)) c w = Inr (added_times n a c w)"
proof (induction n arbitrary: w)
  case 0
  then show ?case by simp
next
  case (Suc n)
  obtain w1 where "onContainerAssetAdded a c w = Inr w1"
    using no_throw_added[OF assms] by blast
  then show ?case using Suc.IH[of w1] by (simp add: add_sub_def)
qed

lemma added_times_unloaded_log:
  assumes "c_resource c = None"
  shows "log (added_times n a c w) = log w @ replicate n (LoadRequest a (c_id c))"
proof (induction n arbitrary: w)
  case 0
  then show ?case by simp
next
  case (Suc n)
  then show ?case
    by (simp add: added_unloaded[OF assms] replicate_app_Cons_same)
qed

lemma listeners_added_times:
  "listeners (LoadEv (c_id c)) OnContainerAssetLoaded a (added_times (Suc k) a c w)
     = [load_sub a (c_id c)]"
  "listeners (RemoveEv (c_id c)) OnContainerAssetRemoved a (added_times (Suc k) a c w)
     = [remove_sub a (c_id c)]"
proof (induction k arbitrary: w)
  case 0
  { case 1 show ?case by (simp add: listeners_added) }
  { case 2 show ?case by (simp add: listeners_added) }
next
  case (Suc k)
  { case 1 show ?case using Suc.IH(1)[of "world_of (onContainerAssetAdded a c w)"] by simp }
  { case 2 show ?case using Suc.IH(2)[of "world_of (onContainerAssetAdded a c w)"] by simp }
qed

lemma bus_inv_added_times: "bus_inv w \<Longrightarrow> bus_inv (added_times k a c w)"
  by (induction k arbitrary: w) (simp_all add: bus_inv_added)

lemma shape_added_times: "shape x (added_times k a c w) = shape x w"
  by (induction k arbitrary: w) (simp_all add: shape_added)

lemma fire_add_replicate:
  assumes "\<forall>s\<in>set (subs w). s_name s \<noteq> AddEv i" and "entries_ok c"
  shows "fire (AddEv i) c (w\<lparr>subs := subs w @ replicate n (add_sub a i)\<rparr>) = Inr (added_times n a c w)"
proof -
  have 1: "filter (\<lambda>s. s_name s = AddEv i) (subs w) = []"
    using assms(1) by (simp add: filter_empty_conv)
  have 2: "filter (\<lambda>s. s_name s = AddEv i \<longrightarrow> \<not> s_once s) (subs w) = subs w"
    using assms(1) by (simp add: filter_id_conv)
  have 3: "filter (\<lambda>s. s_name s = AddEv i) (replicate n (add_sub a i)) = replicate n (add_sub a i)"
    by (simp add: filter_id_conv add_sub_def)
  have 4: "filter (\<lambda>s. s_name s = AddEv i \<longrightarrow> \<not> s_once s) (replicate n (add_sub a i)) = []"
    by (simp add: filter_empty_conv add_sub_def)
  have "revoke_once (AddEv i) (w\<lparr>subs := subs w @ replicate n (add_sub a i)\<rparr>) = w"
    by (simp add: revoke_once_def 2 4)
  then show ?thesis
    by (simp add: fire_def 1 3 dispatch_replicate_added[OF assms(2)])
qed

subsection \<open>A render asset that names no container\<close>

lemma patch_falsy: "\<not> truthy (data_containerAsset (rassets w a)) \<Longrightarrow> patch a w = Inr w"
  by (auto simp: patch_def truthy_def split: option.splits)

lemma own_patch_other: "a \<noteq> b \<Longrightarrow> own b (world_of (patch a w)) = own b w"
  by (simp add: patch_def own_once_other own_added_other split: option.splits)

lemma own_step_unbound:
  assumes "\<not> truthy (data_containerAsset (rassets w a))" and "own_subs a w = []"
  shows "own a (step x w) = own a w"
proof (cases x)
  case (Patch b)
  then show ?thesis
    using patch_falsy[OF assms(1)] own_patch_other[of b a w] by (cases "b = a") simp_all
next
  case (Fire n c)
  have "\<forall>s\<in>set (subs w). s_name s = n \<longrightarrow> s_scope s \<noteq> a"
    using assms(2) by (auto simp: own_subs_def filter_empty_conv)
  then show ?thesis using Fire by (simp add: own_fire_other)
next
  case (StorePut i c)
  then show ?thesis by (simp add: own_def own_subs_def own_log_def)
qed

lemma own_run_unbound:
  assumes "\<not> truthy (data_containerAsset (rassets w a))" and "own_subs a w = []"
  shows "own a (run xs w) = own a w"
  using assms
proof (induction xs arbitrary: w)
  case Nil
  then show ?case by simp
next
  case (Cons x xs)
  have o: "own a (step x w) = own a w" using Cons.prems by (rule own_step_unbound)
  then have "\<not> truthy (data_containerAsset (rassets (step x w) a))" "own_subs a (step x w) = []"
    using Cons.prems by (simp_all add: own_def)
  then have "own a (run xs (step x w)) = own a (step x w)" by (rule Cons.IH)
  with o show ?case by simp
qed

subsection \<open>What an emission makes of a render asset\<close>













lemma hit_callback:
  assumes "bus_inv w"
  shows "\<forall>s\<in>set (filter (\<lambda>s. s_name s = n) (subs w)). s_callback s = callback_of n"
proof
  fix s assume "s \<in> set (filter (\<lambda>s. s_name s = n) (subs w))"
  then have "kinded s" "s_name s = n" using bus_inv_kinded[OF assms] by auto
  then show "s_callback s = callback_of n"
    by (cases n) (auto simp: kinded_def)
qed


subsection \<open>Every load emission reaches the listener\<close>

lemma subs_dispatch_loaded:
  assumes "\<forall>s\<in>set ss. s_callback s = OnContainerAssetLoaded"
  shows "subs (world_of (dispatch ss c w)) = subs w"
  using assms
proof (induction ss arbitrary: w)
  case Nil
  then show ?case by simp
next
  case (Cons s ss)
  have cb: "s_callback s = OnContainerAssetLoaded" using Cons.prems by simp
  have s1: "subs (world_of (onContainerAssetLoaded (s_scope s) c w)) = subs w" by simp
  show ?case
  proof (cases "onContainerAssetLoaded (s_scope s) c w")
    case (Inl e)
    then show ?thesis using s1 cb by simp
  next
    case (Inr w1)
    then have "subs w1 = subs w" using s1 by simp
    moreover have "subs (world_of (dispatch ss c w1)) = subs w1"
      using Cons.IH Cons.prems by simp
    ultimately show ?thesis using Inr cb by simp
  qed
qed

lemma subs_fire_load:
  assumes "bus_inv w"
  shows "subs (world_of (fire (LoadEv i) c w)) = subs w"
proof -
  have k: "\<forall>s\<in>set (subs w). s_name s = LoadEv i \<longrightarrow> \<not> s_once s"
    using bus_inv_kinded[OF assms] kinded_name(2) by blast
  then have "filter (\<lambda>s. \<not> (s_name s = LoadEv i \<and> s_once s)) (subs w) = subs w"
    by (auto simp: filter_id_conv)
  then have r: "subs (revoke_once (LoadEv i) w) = subs w" by simp
  have "\<forall>s\<in>set (filter (\<lambda>s. s_name s = LoadEv i) (subs w)). s_callback s = OnContainerAssetLoaded"
    using hit_callback[OF assms, of "LoadEv i"] by simp
  then show ?thesis
    unfolding fire_def using subs_dispatch_loaded r by simp
qed

lemma entry_at_Some:
  assumes "entry_at i c = Some rr"
  shows "\<exists>cr render. c_resource c = Some cr \<and> lookup_render cr i = Some render
            \<and> e_resource render = Some rr"
  using assms by (auto simp: entry_at_def split: option.splits)

lemma fire_all_load:
  assumes "bus_inv w" and "listeners (LoadEv i) OnContainerAssetLoaded a w \<noteq> []"
    and "resource (rassets w a) \<noteq> None"
    and "list_all (\<lambda>(c, v). entries_ok c
            \<and> map_option meshes (entry_at (data_renderIndex (rassets w a)) c) = Some v) cvs"
  shows "\<exists>w'. fire_all (LoadEv i) (map fst cvs) w = Inr w'
           \<and> own_log a w' = own_log a w @ map (\<lambda>(c, v). SetMeshes a v) cvs
           \<and> subs w' = subs w"
  using assms
proof (induction cvs arbitrary: w)
  case Nil
  then show ?case by simp
next
  case (Cons cv cvs)
  obtain c v where cv: "cv = (c, v)" by (cases cv)
  have ok: "entries_ok c"
    and "map_option meshes (entry_at (data_renderIndex (rassets w a)) c) = Some v"
    using Cons.prems(4) cv by simp_all
  then obtain rr where "entry_at (data_renderIndex (rassets w a)) c = Some rr" and v: "meshes rr = v"
    by auto
  from entry_at_Some[OF this(1)] obtain cr render
    where cr: "c_resource c = Some cr"
      and lk: "lookup_render cr (data_renderIndex (rassets w a)) = Some render"
      and rr: "e_resource render = Some rr"
    by blast
  from Cons.prems(3) obtain r where r: "resource (rassets w a) = Some r" by auto
  from fire_load_assigns[OF Cons.prems(1,2) ok cr r lk rr] obtain w1
    where f: "fire (LoadEv i) c w = Inr w1"
      and ra: "rassets w1 a = (rassets w a)\<lparr>resource := Some (r\<lparr>meshes := meshes rr\<rparr>)\<rparr>"
      and lg: "own_log a w1 = own_log a w @ [SetMeshes a (meshes rr)]"
    by blast
  have s1: "subs w1 = subs w"
    using subs_fire_load[OF Cons.prems(1), of i c] f by simp
  have b1: "bus_inv w1" using Cons.prems(1) s1 by (simp add: bus_inv_def)
  have l1: "listeners (LoadEv i) OnContainerAssetLoaded a w1 \<noteq> []"
    using Cons.prems(2) s1 by (simp add: listeners_def)
  have r1: "resource (rassets w1 a) \<noteq> None" using ra by simp
  have ix: "data_renderIndex (rassets w1 a) = data_renderIndex (rassets w a)" using ra by simp
  have p1: "list_all (\<lambda>(c, v). entries_ok c
            \<and> map_option meshes (entry_at (data_renderIndex (rassets w1 a)) c) = Some v) cvs"
    using Cons.prems(4) ix by simp
  from Cons.IH[OF b1 l1 r1 p1] obtain w'
    where "fire_all (LoadEv i) (map fst cvs) w1 = Inr w'"
      and "own_log a w' = own_log a w1 @ map (\<lambda>(c, v). SetMeshes a v) cvs"
      and "subs w' = subs w1"
    by blast
  then show ?case using f lg s1 v cv by simp
qed

subsection \<open>The meshes after each operation\<close>










section \<open>The claims of the specification\<close>

subsection \<open>Binding to a container that is already loaded\<close>

lemma added_loaded_assigns:
  assumes "c_resource c = Some cr"
    and "lookup_render cr (data_renderIndex (rassets w a)) = Some render"
    and "e_resource render = Some rr"
    and "resource (rassets w a) = Some r"
  shows "\<exists>w'. onContainerAssetAdded a c w = Inr w'
           \<and> rassets w' a = (rassets w a)\<lparr>resource := Some (r\<lparr>meshes := meshes rr\<rparr>)\<rparr>
           \<and> mesh_lists w' = mesh_lists w
           \<and> log w' = log w @ [SetMeshes a (meshes rr)]"
  using assms by (simp add: onContainerAssetAdded_def onContainerAssetLoaded_def Let_def)

text \<open>
  Claim C1. Let the render asset name a container asset (\<open>asset.data.containerAsset\<close> is
  set, to an id that \<open>patch\<close> takes as present), let the registry hold that container,
  already loaded, let the entry at \<open>renderIndex\<close> exist with a resource, and let the render
  asset have its resource. Then \<open>patch\<close> returns, and right after it, with no event
  delivered, \<open>asset.resource.meshes\<close> holds the address that the entry's
  \<open>resource.meshes\<close> holds: the same list object. No list was copied or changed, and the
  only effect is that one assignment.
\<close>

theorem patch_loaded_container:
  assumes "data_containerAsset (rassets w asset) = Some i" and "i \<noteq> 0"
    and "registry_get w i = Some containerAsset"
    and "c_resource containerAsset = Some containerResource"
    and "lookup_render containerResource (data_renderIndex (rassets w asset)) = Some render"
    and "e_resource render = Some rr"
    and "resource (rassets w asset) = Some r"
  shows "\<exists>w'. patch asset w = Inr w'
           \<and> resource (rassets w' asset) = Some (r\<lparr>meshes := meshes rr\<rparr>)
           \<and> mesh_lists w' = mesh_lists w
           \<and> log w' = log w @ [SetMeshes asset (meshes rr)]"
proof -
  from added_loaded_assigns[OF assms(4-7)] obtain w'
    where "onContainerAssetAdded asset containerAsset w = Inr w'"
      and "rassets w' asset = (rassets w asset)\<lparr>resource := Some (r\<lparr>meshes := meshes rr\<rparr>)\<rparr>"
      and "mesh_lists w' = mesh_lists w" and "log w' = log w @ [SetMeshes asset (meshes rr)]"
    by blast
  then show ?thesis using patch_found[OF assms(1-3)] by simp
qed

theorem patch_loaded_container_witness:
  "data_containerAsset (rassets world_loaded 0) = Some 1 \<and> (1::int) \<noteq> 0
   \<and> registry_get world_loaded 1 = Some container_loaded
   \<and> c_resource container_loaded = Some \<lparr>renders = Some [Some \<lparr>e_resource = Some \<lparr>meshes = Some 7\<rparr>\<rparr>]\<rparr>
   \<and> lookup_render \<lparr>renders = Some [Some \<lparr>e_resource = Some \<lparr>meshes = Some 7\<rparr>\<rparr>]\<rparr>
        (data_renderIndex (rassets world_loaded 0)) = Some \<lparr>e_resource = Some \<lparr>meshes = Some 7\<rparr>\<rparr>
   \<and> resource (rassets world_loaded 0) = Some open_render
   \<and> (\<exists>w'. patch 0 world_loaded = Inr w'
           \<and> resource (rassets w' 0) = Some (open_render\<lparr>meshes := meshes \<lparr>meshes = Some 7\<rparr>\<rparr>)
           \<and> mesh_lists w' = mesh_lists world_loaded
           \<and> log w' = log world_loaded @ [SetMeshes 0 (meshes \<lparr>meshes = Some 7\<rparr>)])"
proof -
  have h1: "data_containerAsset (rassets world_loaded 0) = Some 1"
    by (simp add: world_loaded_def world0_def asset0_def)
  have h2: "(1::int) \<noteq> 0" by simp
  have h3: "registry_get world_loaded 1 = Some container_loaded"
    by (simp add: registry_get_def world_loaded_def)
  have h4: "c_resource container_loaded = Some \<lparr>renders = Some [Some \<lparr>e_resource = Some \<lparr>meshes = Some 7\<rparr>\<rparr>]\<rparr>"
    by (simp add: container_loaded_def)
  have h5: "lookup_render \<lparr>renders = Some [Some \<lparr>e_resource = Some \<lparr>meshes = Some 7\<rparr>\<rparr>]\<rparr>
        (data_renderIndex (rassets world_loaded 0)) = Some \<lparr>e_resource = Some \<lparr>meshes = Some 7\<rparr>\<rparr>"
    by (simp add: lookup_render_def world_loaded_def world0_def asset0_def)
  have h6: "e_resource \<lparr>e_resource = Some \<lparr>meshes = Some 7\<rparr>\<rparr> = Some \<lparr>meshes = Some 7\<rparr>"
    by simp
  have h7: "resource (rassets world_loaded 0) = Some open_render"
    by (simp add: world_loaded_def world0_def asset0_def)
  note c = patch_loaded_container[OF h1 h2 h3 h4 h5 h6 h7]
  show ?thesis by (intro conjI h1 h2 h3 h4 h5 h7 c)
qed

subsection \<open>The load callback\<close>

text \<open>
  Claim C3, as the code has it. Let the render asset have its resource and the container
  asset its resource, and let the entry at \<open>renderIndex\<close>, if there is one, carry a
  resource. Then \<open>onContainerAssetLoaded\<close> returns without an exception, and it either
  leaves the world as it was, which is the case when \<open>renders\<close> is missing, when the index
  is past the end and when the slot is empty, or it performs the assignment of the
  entry's \<open>resource.meshes\<close>, which it does only when the entry is there.
\<close>

theorem onContainerAssetLoaded_entry:
  assumes "resource (rassets w this) = Some r"
    and "c_resource containerAsset = Some containerResource"
    and "\<forall>render. lookup_render containerResource (data_renderIndex (rassets w this)) = Some render
           \<longrightarrow> e_resource render \<noteq> None"
  shows "\<exists>w'. onContainerAssetLoaded this containerAsset w = Inr w'
     \<and> ((w' = w \<and> (renders containerResource = None
                 \<or> (\<exists>rs. renders containerResource = Some rs
                       \<and> (length rs \<le> data_renderIndex (rassets w this)
                            \<or> rs ! data_renderIndex (rassets w this) = None))))
        \<or> (\<exists>render rr. lookup_render containerResource (data_renderIndex (rassets w this)) = Some render
              \<and> e_resource render = Some rr
              \<and> w' = set_meshes this r (meshes rr) w))"
proof (cases "lookup_render containerResource (data_renderIndex (rassets w this))")
  case None
  with assms show ?thesis
    by (simp add: onContainerAssetLoaded_def lookup_render_None_iff[symmetric])
next
  case (Some render)
  with assms obtain rr where "e_resource render = Some rr" by auto
  with Some assms show ?thesis
    by (simp add: onContainerAssetLoaded_def)
qed

theorem onContainerAssetLoaded_entry_witness:
  "resource (rassets world_far 0) = Some open_render
   \<and> c_resource container_loaded = Some \<lparr>renders = Some [Some \<lparr>e_resource = Some \<lparr>meshes = Some 7\<rparr>\<rparr>]\<rparr>
   \<and> onContainerAssetLoaded 0 container_loaded world_far = Inr world_far
   \<and> resource (rassets world0 0) = Some open_render
   \<and> onContainerAssetLoaded 0 container_loaded world0 = Inr (set_meshes 0 open_render (Some 7) world0)"
proof -
  let ?cr = "\<lparr>renders = Some [Some \<lparr>e_resource = Some \<lparr>meshes = Some 7\<rparr>\<rparr>]\<rparr>"
  have h1: "resource (rassets world_far 0) = Some open_render"
    by (simp add: world_far_def world0_def asset0_def)
  have h2: "c_resource container_loaded = Some ?cr"
    by (simp add: container_loaded_def)
  have i1: "data_renderIndex (rassets world_far 0) = 3"
    by (simp add: world_far_def world0_def asset0_def)
  have h3: "\<forall>render. lookup_render ?cr (data_renderIndex (rassets world_far 0)) = Some render
           \<longrightarrow> e_resource render \<noteq> None"
    by (simp add: lookup_render_def i1)
  have far: "onContainerAssetLoaded 0 container_loaded world_far = Inr world_far"
    using onContainerAssetLoaded_entry[OF h1 h2 h3] by (auto simp: lookup_render_def i1)
  have k1: "resource (rassets world0 0) = Some open_render"
    by (simp add: world0_def asset0_def)
  have i0: "data_renderIndex (rassets world0 0) = 0"
    by (simp add: world0_def asset0_def)
  have k3: "\<forall>render. lookup_render ?cr (data_renderIndex (rassets world0 0)) = Some render
           \<longrightarrow> e_resource render \<noteq> None"
    by (auto simp: lookup_render_def i0)
  have near: "onContainerAssetLoaded 0 container_loaded world0
      = Inr (set_meshes 0 open_render (Some 7) world0)"
    using onContainerAssetLoaded_entry[OF k1 h2 k3] by (auto simp: lookup_render_def i0)
  show ?thesis by (intro conjI h1 h2 far k1 near)
qed

text \<open>
  Claim C3, as the spec has it, fails: with the resource of the render asset present and
  an entry at \<open>renderIndex\<close> that has no \<open>.resource\<close>, the callback does not skip the
  assignment; reading \<open>render.resource.meshes\<close> throws a TypeError, which leaves the
  callback.
\<close>

theorem onContainerAssetLoaded_entry_counterexample:
  "resource (rassets world0 0) = Some open_render
   \<and> c_resource container_hollow = Some \<lparr>renders = Some [Some \<lparr>e_resource = None\<rparr>]\<rparr>
   \<and> lookup_render \<lparr>renders = Some [Some \<lparr>e_resource = None\<rparr>]\<rparr> (data_renderIndex (rassets world0 0))
       = Some \<lparr>e_resource = None\<rparr>
   \<and> onContainerAssetLoaded 0 container_hollow world0 = Inl (TypeError, world0)"
  by (simp add: onContainerAssetLoaded_def lookup_render_def container_hollow_def world0_def
      asset0_def)

text \<open>
  Claim C7. When the render asset has no resource, \<open>onContainerAssetLoaded\<close> returns the
  world as it was, whatever the container asset is: nothing is read from the container,
  nothing is assigned, and no state changes.
\<close>

theorem onContainerAssetLoaded_guard:
  "resource (rassets w this) = None \<Longrightarrow> onContainerAssetLoaded this containerAsset w = Inr w"
  by (simp add: onContainerAssetLoaded_def)

theorem onContainerAssetLoaded_guard_witness:
  "resource (rassets world_torn 0) = None
   \<and> onContainerAssetLoaded 0 container_loaded world_torn = Inr world_torn"
proof -
  have h: "resource (rassets world_torn 0) = None"
    by (simp add: world_torn_def world0_def asset0_def)
  note c = onContainerAssetLoaded_guard[OF h, of container_loaded]
  show ?thesis by (intro conjI h c)
qed

subsection \<open>The remove callback\<close>

text \<open>
  Claim C9. When the render asset has its resource, \<open>onContainerAssetRemoved\<close> calls the
  resource's \<open>destroy\<close> and leaves \<open>asset.resource\<close> set, to that resource as the
  teardown left it. Nothing that follows, no call of \<open>patch\<close> and no event, makes
  \<open>asset.resource\<close> absent, so the guard of \<open>onContainerAssetLoaded\<close> does not apply: run
  next on a loaded container with the entry in place, the callback assigns the meshes
  again.
\<close>

theorem onContainerAssetRemoved_keeps_resource:
  assumes "resource (rassets w this) = Some r"
    and "c_resource c = Some cr"
    and "lookup_render cr (data_renderIndex (rassets w this)) = Some render"
    and "e_resource render = Some rr"
  shows "\<exists>w'. onContainerAssetRemoved this containerAsset w = Inr w'
     \<and> resource (rassets w' this) = Some (destroy r)
     \<and> log w' = log w @ [Destroy this]
     \<and> (\<forall>ops. resource (rassets (run ops w') this) \<noteq> None)
     \<and> onContainerAssetLoaded this c w' = Inr (set_meshes this (destroy r) (meshes rr) w')"
proof -
  let ?w' = "destroy_resource this r (registry_off (LoadEv (c_id containerAsset)) OnContainerAssetLoaded this w)"
  have 1: "onContainerAssetRemoved this containerAsset w = Inr ?w'"
    using assms(1) by (rule removed_present)
  have 2: "resource (rassets ?w' this) = Some (destroy r)" by simp
  have 3: "log ?w' = log w @ [Destroy this]" by simp
  have 4: "resource (rassets (run ops ?w') this) \<noteq> None" for ops
    using shape_run[of this ops ?w'] 2 by (simp add: shape_def)
  have 5: "onContainerAssetLoaded this c ?w' = Inr (set_meshes this (destroy r) (meshes rr) ?w')"
    using assms(2-4) by (intro loaded_assigns[where cr = cr and render = render]) simp_all
  show ?thesis using 1 2 3 4 5 by blast
qed

theorem onContainerAssetRemoved_keeps_resource_witness:
  "resource (rassets world0 0) = Some open_render
   \<and> c_resource container_loaded = Some \<lparr>renders = Some [Some \<lparr>e_resource = Some \<lparr>meshes = Some 7\<rparr>\<rparr>]\<rparr>
   \<and> lookup_render \<lparr>renders = Some [Some \<lparr>e_resource = Some \<lparr>meshes = Some 7\<rparr>\<rparr>]\<rparr>
        (data_renderIndex (rassets world0 0)) = Some \<lparr>e_resource = Some \<lparr>meshes = Some 7\<rparr>\<rparr>
   \<and> (\<exists>w'. onContainerAssetRemoved 0 container_unloaded world0 = Inr w'
     \<and> resource (rassets w' 0) = Some (destroy open_render)
     \<and> log w' = log world0 @ [Destroy 0]
     \<and> (\<forall>ops. resource (rassets (run ops w') 0) \<noteq> None)
     \<and> onContainerAssetLoaded 0 container_loaded w'
          = Inr (set_meshes 0 (destroy open_render) (meshes \<lparr>meshes = Some 7\<rparr>) w'))"
proof -
  have h1: "resource (rassets world0 0) = Some open_render"
    by (simp add: world0_def asset0_def)
  have h2: "c_resource container_loaded = Some \<lparr>renders = Some [Some \<lparr>e_resource = Some \<lparr>meshes = Some 7\<rparr>\<rparr>]\<rparr>"
    by (simp add: container_loaded_def)
  have h3: "lookup_render \<lparr>renders = Some [Some \<lparr>e_resource = Some \<lparr>meshes = Some 7\<rparr>\<rparr>]\<rparr>
        (data_renderIndex (rassets world0 0)) = Some \<lparr>e_resource = Some \<lparr>meshes = Some 7\<rparr>\<rparr>"
    by (simp add: lookup_render_def world0_def asset0_def)
  have h4: "e_resource \<lparr>e_resource = Some \<lparr>meshes = Some 7\<rparr>\<rparr> = Some \<lparr>meshes = Some 7\<rparr>"
    by simp
  note c = onContainerAssetRemoved_keeps_resource[OF h1 h2 h3 h4, of container_unloaded]
  show ?thesis by (intro conjI h1 h2 h3 c)
qed

subsection \<open>Binding to a container that arrives later\<close>

text \<open>
  Claim C2. Let the bus be in a state that the handler maintains, let the render asset
  name a container that the registry does not hold, and let it have its resource. Then
  \<open>patch\<close>, followed by the emission of \<open>add:<id>\<close> with the container still without
  its resource, followed by the emission of \<open>load:<id>\<close> with the loaded container, all
  return, and at the end \<open>asset.resource.meshes\<close> holds the address held by the entry of
  the container: the render asset is what \<open>patch\<close> alone makes of it when the registry
  holds the loaded container from the start. No list was copied or changed.
\<close>

theorem patch_then_add_then_load:
  assumes "bus_inv w"
    and "data_containerAsset (rassets w asset) = Some i" and "i \<noteq> 0"
    and "registry_get w i = None"
    and "resource (rassets w asset) = Some r"
    and "c_id c0 = i" and "c_resource c0 = None"
    and "c_id c = i" and "c_resource c = Some cr" and "entries_ok c"
    and "lookup_render cr (data_renderIndex (rassets w asset)) = Some render"
    and "e_resource render = Some rr"
  shows "\<exists>w1 w2 w3. patch asset w = Inr w1 \<and> fire (AddEv i) c0 w1 = Inr w2
           \<and> fire (LoadEv i) c w2 = Inr w3
           \<and> resource (rassets w3 asset) = Some (r\<lparr>meshes := meshes rr\<rparr>)
           \<and> rassets w3 asset
               = rassets (world_of (patch asset (w\<lparr>store := (store w)(i := Some c)\<rparr>))) asset
           \<and> mesh_lists w3 = mesh_lists w"
proof -
  let ?w1 = "w\<lparr>subs := subs w @ [add_sub asset i]\<rparr>"
  have p: "patch asset w = Inr ?w1"
    using assms(2-4) by (rule patch_absent)
  have b1: "bus_inv ?w1"
    using bus_inv_patch[OF assms(1), of asset] p by simp
  have "add_sub asset (c_id c0) \<in> set (subs ?w1)"
    using assms(6) by simp
  from fire_add_unloaded[OF b1 this assms(7)] obtain w2
    where f2: "fire (AddEv i) c0 ?w1 = Inr w2" and r2: "rassets w2 = rassets w"
      and l2: "listeners (LoadEv i) OnContainerAssetLoaded asset w2 \<noteq> []"
    using assms(6) by auto
  have b2: "bus_inv w2"
    using bus_inv_fire[OF b1, of "AddEv i" c0] f2 by simp
  have g2: "mesh_lists w2 = mesh_lists w"
    using globals_fire[of "AddEv i" c0 ?w1] f2 by (simp add: globals_def)
  from fire_load_assigns[OF b2 l2 assms(10) assms(9), of r render rr] obtain w3
    where f3: "fire (LoadEv i) c w2 = Inr w3"
      and r3: "rassets w3 asset = (rassets w asset)\<lparr>resource := Some (r\<lparr>meshes := meshes rr\<rparr>)\<rparr>"
      and g3: "mesh_lists w3 = mesh_lists w2"
    using assms(5,11,12) r2 by auto
  let ?ws = "w\<lparr>store := (store w)(i := Some c)\<rparr>"
  have d: "data_containerAsset (rassets ?ws asset) = Some i"
    using assms(2) by simp
  have g: "registry_get ?ws i = Some c"
    by (simp add: registry_get_def)
  have "patch asset ?ws = onContainerAssetAdded asset c ?ws"
    using d assms(3) g by (rule patch_found)
  moreover from added_loaded_assigns[of c cr ?ws asset render rr r] obtain ws'
    where "onContainerAssetAdded asset c ?ws = Inr ws'"
      and "rassets ws' asset = (rassets w asset)\<lparr>resource := Some (r\<lparr>meshes := meshes rr\<rparr>)\<rparr>"
    using assms(5,9,11,12) by auto
  ultimately have s: "rassets (world_of (patch asset ?ws)) asset
      = (rassets w asset)\<lparr>resource := Some (r\<lparr>meshes := meshes rr\<rparr>)\<rparr>"
    by simp
  have "resource (rassets w3 asset) = Some (r\<lparr>meshes := meshes rr\<rparr>)"
    using r3 by simp
  with p f2 f3 r3 s g2 g3 show ?thesis by simp
qed

theorem patch_then_add_then_load_witness:
  "bus_inv world0
   \<and> data_containerAsset (rassets world0 0) = Some 1 \<and> (1::int) \<noteq> 0
   \<and> registry_get world0 1 = None
   \<and> resource (rassets world0 0) = Some open_render
   \<and> c_id container_unloaded = 1 \<and> c_resource container_unloaded = None
   \<and> c_id container_loaded = 1
   \<and> c_resource container_loaded = Some \<lparr>renders = Some [Some \<lparr>e_resource = Some \<lparr>meshes = Some 7\<rparr>\<rparr>]\<rparr>
   \<and> entries_ok container_loaded
   \<and> (\<exists>w1 w2 w3. patch 0 world0 = Inr w1 \<and> fire (AddEv 1) container_unloaded w1 = Inr w2
           \<and> fire (LoadEv 1) container_loaded w2 = Inr w3
           \<and> resource (rassets w3 0) = Some (open_render\<lparr>meshes := meshes \<lparr>meshes = Some 7\<rparr>\<rparr>)
           \<and> rassets w3 0
               = rassets (world_of (patch 0 (world0\<lparr>store := (store world0)(1 := Some container_loaded)\<rparr>))) 0
           \<and> mesh_lists w3 = mesh_lists world0)"
proof -
  let ?cr = "\<lparr>renders = Some [Some \<lparr>e_resource = Some \<lparr>meshes = Some 7\<rparr>\<rparr>]\<rparr>"
  have h1: "bus_inv world0" by (simp add: bus_inv_def inv_subs_def world0_def)
  have h2: "data_containerAsset (rassets world0 0) = Some 1" by (simp add: world0_def asset0_def)
  have h3: "(1::int) \<noteq> 0" by simp
  have h4: "registry_get world0 1 = None" by (simp add: registry_get_def world0_def)
  have h5: "resource (rassets world0 0) = Some open_render" by (simp add: world0_def asset0_def)
  have h6: "c_id container_unloaded = 1" by (simp add: container_unloaded_def)
  have h7: "c_resource container_unloaded = None" by (simp add: container_unloaded_def)
  have h8: "c_id container_loaded = 1" by (simp add: container_loaded_def)
  have h9: "c_resource container_loaded = Some ?cr" by (simp add: container_loaded_def)
  have h10: "entries_ok container_loaded"
    by (simp add: entries_ok_def entry_ok_def container_loaded_def)
  have h11: "lookup_render ?cr (data_renderIndex (rassets world0 0)) = Some \<lparr>e_resource = Some \<lparr>meshes = Some 7\<rparr>\<rparr>"
    by (simp add: lookup_render_def world0_def asset0_def)
  have h12: "e_resource \<lparr>e_resource = Some \<lparr>meshes = Some 7\<rparr>\<rparr> = Some \<lparr>meshes = Some 7\<rparr>" by simp
  note c = patch_then_add_then_load[OF h1 h2 h3 h4 h5 h6 h7 h8 h9 h10 h11 h12]
  show ?thesis by (intro conjI h1 h2 h3 h4 h5 h6 h7 h8 h9 h10 c)
qed

subsection \<open>One listener for each pair\<close>

text \<open>
  Claim C4. Start from a bus without subscriptions and run any sequence of calls of
  \<open>patch\<close> and of emissions. At each point of the run, every pair of a render asset and a
  container id has at most one \<open>load:\<close> listener and at most one \<open>remove:\<close> listener.
  After the add-handling path has then run any number of times, at least once, for the
  same pair, the pair has exactly one of each, the persistent \<open>load:\<close> subscription and
  the one-shot \<open>remove:\<close> subscription. Each of any number of emissions of \<open>load:<id>\<close>
  that follow, each with a loaded container whose entry is in place, then makes the render
  asset assign its meshes exactly once: all the emissions return, the render asset has
  assigned, in order, the meshes of the entry of each container and nothing else, and its
  \<open>load:\<close> listener is still the one subscription.
\<close>

theorem at_most_one_listener:
  assumes "subs w0 = []" and "resource (rassets w0 a) \<noteq> None" and "0 < k"
    and "list_all (\<lambda>(c2, v). entries_ok c2
            \<and> map_option meshes (entry_at (data_renderIndex (rassets w0 a)) c2) = Some v) cvs"
  shows "length (listeners (LoadEv i) OnContainerAssetLoaded b (run ops w0)) \<le> 1
       \<and> length (listeners (RemoveEv i) OnContainerAssetRemoved b (run ops w0)) \<le> 1
       \<and> listeners (LoadEv (c_id c)) OnContainerAssetLoaded a
             (added_times k a c (run ops w0)) = [load_sub a (c_id c)]
       \<and> listeners (RemoveEv (c_id c)) OnContainerAssetRemoved a
             (added_times k a c (run ops w0)) = [remove_sub a (c_id c)]
       \<and> (\<exists>w2. fire_all (LoadEv (c_id c)) (map fst cvs) (added_times k a c (run ops w0)) = Inr w2
              \<and> own_log a w2
                  = own_log a (added_times k a c (run ops w0)) @ map (\<lambda>(c2, v). SetMeshes a v) cvs
              \<and> listeners (LoadEv (c_id c)) OnContainerAssetLoaded a w2 = [load_sub a (c_id c)])"
proof -
  let ?w = "run ops w0"
  let ?w1 = "added_times k a c ?w"
  have b: "bus_inv ?w" using assms(1) by (intro bus_inv_run bus_inv_empty)
  have 1: "length (listeners (LoadEv i) OnContainerAssetLoaded b ?w) \<le> 1"
    and 2: "length (listeners (RemoveEv i) OnContainerAssetRemoved b ?w) \<le> 1"
    using bus_inv_at_most_one[OF b] by simp_all
  obtain j where k: "k = Suc j" using assms(3) by (cases k) auto
  have 3: "listeners (LoadEv (c_id c)) OnContainerAssetLoaded a ?w1 = [load_sub a (c_id c)]"
    and 4: "listeners (RemoveEv (c_id c)) OnContainerAssetRemoved a ?w1 = [remove_sub a (c_id c)]"
    unfolding k by (rule listeners_added_times)+
  have b1: "bus_inv ?w1" using b by (rule bus_inv_added_times)
  have sh: "shape a ?w1 = shape a w0"
    by (simp add: shape_added_times shape_run)
  then have r1: "resource (rassets ?w1 a) \<noteq> None"
    using assms(2) by (auto simp: shape_def)
  have ix: "data_renderIndex (rassets ?w1 a) = data_renderIndex (rassets w0 a)"
    using sh by (simp add: shape_def)
  have l1: "listeners (LoadEv (c_id c)) OnContainerAssetLoaded a ?w1 \<noteq> []" using 3 by simp
  have p1: "list_all (\<lambda>(c2, v). entries_ok c2
            \<and> map_option meshes (entry_at (data_renderIndex (rassets ?w1 a)) c2) = Some v) cvs"
    using assms(4) ix by simp
  from fire_all_load[OF b1 l1 r1 p1] obtain w2
    where f: "fire_all (LoadEv (c_id c)) (map fst cvs) ?w1 = Inr w2"
      and lg: "own_log a w2 = own_log a ?w1 @ map (\<lambda>(c2, v). SetMeshes a v) cvs"
      and sb: "subs w2 = subs ?w1"
    by blast
  have 5: "listeners (LoadEv (c_id c)) OnContainerAssetLoaded a w2 = [load_sub a (c_id c)]"
    using 3 sb by (simp add: listeners_def)
  show ?thesis using 1 2 3 4 f lg 5 by blast
qed

theorem at_most_one_listener_witness:
  "subs world0 = [] \<and> resource (rassets world0 0) \<noteq> None \<and> (0::nat) < 2
   \<and> list_all (\<lambda>(c2, v). entries_ok c2
          \<and> map_option meshes (entry_at (data_renderIndex (rassets world0 0)) c2) = Some v)
        loads_twice
   \<and> length (listeners (LoadEv 1) OnContainerAssetLoaded 0 (run [Patch 0, Patch 0] world0)) \<le> 1
   \<and> length (listeners (RemoveEv 1) OnContainerAssetRemoved 0 (run [Patch 0, Patch 0] world0)) \<le> 1
   \<and> listeners (LoadEv (c_id container_unloaded)) OnContainerAssetLoaded 0
        (added_times 2 0 container_unloaded (run [Patch 0, Patch 0] world0))
       = [load_sub 0 (c_id container_unloaded)]
   \<and> listeners (RemoveEv (c_id container_unloaded)) OnContainerAssetRemoved 0
        (added_times 2 0 container_unloaded (run [Patch 0, Patch 0] world0))
       = [remove_sub 0 (c_id container_unloaded)]
   \<and> (\<exists>w2. fire_all (LoadEv (c_id container_unloaded))
               (map fst loads_twice)
               (added_times 2 0 container_unloaded (run [Patch 0, Patch 0] world0)) = Inr w2
          \<and> own_log 0 w2
              = own_log 0 (added_times 2 0 container_unloaded (run [Patch 0, Patch 0] world0))
                @ map (\<lambda>(c2, v). SetMeshes 0 v) loads_twice
          \<and> listeners (LoadEv (c_id container_unloaded)) OnContainerAssetLoaded 0 w2
              = [load_sub 0 (c_id container_unloaded)])"
proof -
  have h1: "subs world0 = []" by (simp add: world0_def)
  have h2: "resource (rassets world0 0) \<noteq> None" by (simp add: world0_def asset0_def)
  have h3: "(0::nat) < 2" by simp
  have h4: "list_all (\<lambda>(c2, v). entries_ok c2
          \<and> map_option meshes (entry_at (data_renderIndex (rassets world0 0)) c2) = Some v)
        loads_twice"
    by (simp add: loads_twice_def entries_ok_def entry_ok_def entry_at_def lookup_render_def
        container_loaded_def world0_def asset0_def)
  note c = at_most_one_listener[OF h1 h2 h3 h4, of 1 0 "[Patch 0, Patch 0]" container_unloaded]
  show ?thesis using h1 h2 h3 h4 c by (intro conjI) blast+
qed

subsection \<open>Removal of the container\<close>

text \<open>
  Claim C5. Let the bus be in a state that the handler maintains, and let the render asset
  have its resource and its \<open>remove:\<close> listener for the container, as it does once bound.
  Then the emission of \<open>remove:<id>\<close> returns; the render asset has called the teardown of
  its resource exactly once, and the resource holds no meshes any more; its \<open>load:\<close> and
  \<open>remove:\<close> listeners for that id are gone; and an emission of \<open>load:<id>\<close> that follows,
  with whatever container, leaves the render asset, its subscriptions and its effects as
  they are.
\<close>

theorem remove_tears_down_once:
  assumes "bus_inv w" and "listeners (RemoveEv i) OnContainerAssetRemoved a w \<noteq> []"
    and "resource (rassets w a) = Some r" and "c_id c = i"
  shows "\<exists>w'. fire (RemoveEv i) c w = Inr w'
           \<and> resource (rassets w' a) = Some (destroy r) \<and> meshes (destroy r) = None
           \<and> own_log a w' = own_log a w @ [Destroy a]
           \<and> listeners (LoadEv i) OnContainerAssetLoaded a w' = []
           \<and> listeners (RemoveEv i) OnContainerAssetRemoved a w' = []
           \<and> (\<forall>c2. own a (world_of (fire (LoadEv i) c2 w')) = own a w')"
proof -
  from fire_remove_destroys[OF assms] obtain w'
    where f: "fire (RemoveEv i) c w = Inr w'"
      and ra: "rassets w' a = (rassets w a)\<lparr>resource := Some (destroy r)\<rparr>"
      and lg: "own_log a w' = own_log a w @ [Destroy a]"
      and no: "\<forall>t\<in>set (subs w'). s_scope t = a \<longrightarrow> s_name t \<noteq> LoadEv i \<and> s_name t \<noteq> RemoveEv i"
    by blast
  have l: "listeners (LoadEv i) OnContainerAssetLoaded a w' = []"
    and rm: "listeners (RemoveEv i) OnContainerAssetRemoved a w' = []"
    using no by (auto simp: listeners_def filter_empty_conv same_listener_def)
  have "\<forall>s\<in>set (subs w'). s_name s = LoadEv i \<longrightarrow> s_scope s \<noteq> a"
    using no by auto
  then have later: "own a (world_of (fire (LoadEv i) c2 w')) = own a w'" for c2
    by (rule own_fire_other)
  have "resource (rassets w' a) = Some (destroy r)" using ra by simp
  moreover have "meshes (destroy r) = None" by (simp add: destroy_def)
  ultimately show ?thesis using f lg l rm later by blast
qed

theorem remove_tears_down_once_witness:
  "bus_inv world_bound \<and> listeners (RemoveEv 1) OnContainerAssetRemoved 0 world_bound \<noteq> []
   \<and> resource (rassets world_bound 0) = Some \<lparr>meshes = Some 7\<rparr> \<and> c_id container_loaded = 1
   \<and> (\<exists>w'. fire (RemoveEv 1) container_loaded world_bound = Inr w'
           \<and> resource (rassets w' 0) = Some (destroy \<lparr>meshes = Some 7\<rparr>)
           \<and> meshes (destroy \<lparr>meshes = Some 7\<rparr>) = None
           \<and> own_log 0 w' = own_log 0 world_bound @ [Destroy 0]
           \<and> listeners (LoadEv 1) OnContainerAssetLoaded 0 w' = []
           \<and> listeners (RemoveEv 1) OnContainerAssetRemoved 0 w' = []
           \<and> (\<forall>c2. own 0 (world_of (fire (LoadEv 1) c2 w')) = own 0 w'))"
proof -
  have h1: "bus_inv world_bound"
    by (simp add: bus_inv_def inv_subs_def world_bound_def kinded_def is_add_def listener_def load_sub_def
        remove_sub_def)
  have h2: "listeners (RemoveEv 1) OnContainerAssetRemoved 0 world_bound \<noteq> []"
    by (simp add: listeners_def world_bound_def same_listener_def load_sub_def remove_sub_def)
  have h3: "resource (rassets world_bound 0) = Some \<lparr>meshes = Some 7\<rparr>"
    by (simp add: world_bound_def)
  have h4: "c_id container_loaded = 1" by (simp add: container_loaded_def)
  note c = remove_tears_down_once[OF h1 h2 h3 h4]
  show ?thesis by (intro conjI h1 h2 h3 h4 c)
qed

subsection \<open>When the meshes are set\<close>




subsection \<open>A render asset without a container\<close>

text \<open>
  Claim C8. When \<open>asset.data.containerAsset\<close> is absent (or falsy), \<open>patch\<close> returns
  the world as it was: no subscription, no load request, no change of the meshes. Such a
  render asset, if it has no subscription to begin with, stays as it is through any
  sequence of calls of \<open>patch\<close> and of emissions: the asset, its subscriptions (none) and
  its effects do not change.
\<close>

theorem patch_without_container:
  assumes "\<not> truthy (data_containerAsset (rassets w asset))" and "own_subs asset w = []"
  shows "patch asset w = Inr w \<and> own asset (run ops w) = own asset w"
  using patch_falsy[OF assms(1)] own_run_unbound[OF assms] by simp

theorem patch_without_container_witness:
  "\<not> truthy (data_containerAsset (rassets world_unbound 0)) \<and> own_subs 0 world_unbound = []
   \<and> patch 0 world_unbound = Inr world_unbound
   \<and> own 0 (run [Patch 0, Fire (AddEv 1) container_loaded, Fire (LoadEv 1) container_loaded]
               world_unbound) = own 0 world_unbound"
proof -
  have h1: "\<not> truthy (data_containerAsset (rassets world_unbound 0))"
    by (simp add: truthy_def world_unbound_def)
  have h2: "own_subs 0 world_unbound = []"
    by (simp add: own_subs_def world_unbound_def world0_def)
  note c = patch_without_container[OF h1 h2,
      of "[Patch 0, Fire (AddEv 1) container_loaded, Fire (LoadEv 1) container_loaded]"]
  show ?thesis using h1 h2 c by (intro conjI) blast+
qed

subsection \<open>Repeated calls of patch before the container is added\<close>

text \<open>
  Claim C10. Let the render asset name a container that the registry does not hold, with
  no listener subscribed to \<open>add:<id>\<close> yet. After \<open>n\<close> calls of \<open>patch\<close>, for any
  \<open>n\<close> from 1 on, the bus has \<open>n\<close> one-shot \<open>add:\<close> subscriptions of the render asset,
  since \<open>patch\<close> unsubscribes nothing. One emission of \<open>add:<id>\<close>, with the container not
  yet loaded, then runs \<open>onContainerAssetAdded\<close> \<open>n\<close> times for the pair, which requests
  the load \<open>n\<close> times, and leaves exactly one \<open>load:\<close> and one \<open>remove:\<close> listener.
\<close>

theorem patch_accumulates_add_listeners:
  assumes "data_containerAsset (rassets w a) = Some i" and "i \<noteq> 0"
    and "registry_get w i = None"
    and "filter (\<lambda>s. s_name s = AddEv i) (subs w) = []"
    and "c_id c = i" and "c_resource c = None" and "0 < n"
  shows "subs (run (replicate n (Patch a)) w) = subs w @ replicate n (add_sub a i)
       \<and> length (listeners (AddEv i) OnContainerAssetAdded a (run (replicate n (Patch a)) w)) = n
       \<and> fire (AddEv i) c (run (replicate n (Patch a)) w) = Inr (added_times n a c w)
       \<and> log (added_times n a c w) = log w @ replicate n (LoadRequest a i)
       \<and> length (listeners (LoadEv i) OnContainerAssetLoaded a (added_times n a c w)) = 1
       \<and> length (listeners (RemoveEv i) OnContainerAssetRemoved a (added_times n a c w)) = 1"
proof -
  let ?wn = "run (replicate n (Patch a)) w"
  have wn: "?wn = w\<lparr>subs := subs w @ replicate n (add_sub a i)\<rparr>"
    using assms(1-3) by (rule run_patch_absent)
  have none: "\<forall>s\<in>set (subs w). s_name s \<noteq> AddEv i"
    using assms(4) by (simp add: filter_empty_conv)
  have 1: "subs ?wn = subs w @ replicate n (add_sub a i)" using wn by simp
  have "filter (same_listener (AddEv i) OnContainerAssetAdded a) (subs w) = []"
    using none by (simp add: filter_empty_conv same_listener_def)
  moreover have "filter (same_listener (AddEv i) OnContainerAssetAdded a) (replicate n (add_sub a i))
      = replicate n (add_sub a i)"
    by (simp add: filter_id_conv same_listener_def add_sub_def)
  ultimately have 2: "length (listeners (AddEv i) OnContainerAssetAdded a ?wn) = n"
    using 1 by (simp add: listeners_def)
  have ok: "entries_ok c" using assms(6) by (simp add: entries_ok_def)
  have 3: "fire (AddEv i) c ?wn = Inr (added_times n a c w)"
    unfolding wn using none ok by (rule fire_add_replicate)
  have 4: "log (added_times n a c w) = log w @ replicate n (LoadRequest a i)"
    using added_times_unloaded_log[OF assms(6), of n a w] assms(5) by simp
  obtain j where n: "n = Suc j" using assms(7) by (cases n) auto
  have 5: "length (listeners (LoadEv i) OnContainerAssetLoaded a (added_times n a c w)) = 1"
    and 6: "length (listeners (RemoveEv i) OnContainerAssetRemoved a (added_times n a c w)) = 1"
    using listeners_added_times[of c a j w] assms(5) n by simp_all
  show ?thesis using 1 2 3 4 5 6 by simp
qed

theorem patch_accumulates_add_listeners_witness:
  "data_containerAsset (rassets world0 0) = Some 1 \<and> (1::int) \<noteq> 0
   \<and> registry_get world0 1 = None
   \<and> filter (\<lambda>s. s_name s = AddEv 1) (subs world0) = []
   \<and> c_id container_unloaded = 1 \<and> c_resource container_unloaded = None \<and> (0::nat) < 2
   \<and> subs (run (replicate 2 (Patch 0)) world0) = subs world0 @ replicate 2 (add_sub 0 1)
   \<and> length (listeners (AddEv 1) OnContainerAssetAdded 0 (run (replicate 2 (Patch 0)) world0)) = 2
   \<and> fire (AddEv 1) container_unloaded (run (replicate 2 (Patch 0)) world0)
       = Inr (added_times 2 0 container_unloaded world0)
   \<and> log (added_times 2 0 container_unloaded world0) = log world0 @ replicate 2 (LoadRequest 0 1)
   \<and> length (listeners (LoadEv 1) OnContainerAssetLoaded 0 (added_times 2 0 container_unloaded world0)) = 1
   \<and> length (listeners (RemoveEv 1) OnContainerAssetRemoved 0 (added_times 2 0 container_unloaded world0)) = 1"
proof -
  have h1: "data_containerAsset (rassets world0 0) = Some 1" by (simp add: world0_def asset0_def)
  have h2: "(1::int) \<noteq> 0" by simp
  have h3: "registry_get world0 1 = None" by (simp add: registry_get_def world0_def)
  have h4: "filter (\<lambda>s. s_name s = AddEv 1) (subs world0) = []" by (simp add: world0_def)
  have h5: "c_id container_unloaded = 1" by (simp add: container_unloaded_def)
  have h6: "c_resource container_unloaded = None" by (simp add: container_unloaded_def)
  have h7: "(0::nat) < 2" by simp
  note c = patch_accumulates_add_listeners[OF h1 h2 h3 h4 h5 h6 h7]
  show ?thesis using h1 h2 h3 h4 h5 h6 h7 c by (intro conjI) blast+
qed

end
